theory Spec2Isabelle
  imports Main
begin

section \<open>types.ts\<close>

datatype SplitDirection = Horizontal | Vertical

datatype ProcessStatus = Idle | Splitting | Expanding | Done | Error

text \<open>
  The two anonymous object types of \<^verbatim>\<open>ProcessedImage\<close> have the same shape;
  \<^verbatim>\<open>string | null\<close> is an option.
\<close>

record SplitPart =
  url :: "string option"
  expandedUrl :: "string option"
  status :: ProcessStatus

text \<open>
  Of a browser \<^verbatim>\<open>File\<close> the code reads the name and the MIME type, its fields
  \<^verbatim>\<open>name\<close> and \<^verbatim>\<open>type\<close>.
\<close>

record File =
  fname :: string
  ftype :: string

text \<open>The fields \<^verbatim>\<open>id\<close> and \<^verbatim>\<open>file\<close> are \<open>item_id\<close> and \<open>itemFile\<close> here (\<open>id\<close> is the identity
  of HOL, \<open>file\<close> a keyword).\<close>

record ProcessedImage =
  item_id :: string
  originalUrl :: string
  itemFile :: File
  splitPart1 :: SplitPart
  splitPart2 :: SplitPart

text \<open>Everything the code throws or rejects with.\<close>

datatype exn =
  MissingKey
  | NoImageData
  | NoCanvasContext
  | LoadFailed
  | NetworkError string
  | ReadFailed

section \<open>services/imageUtils.ts\<close>

text \<open>
  A decoded image: its size and its pixels, \<open>None\<close> for a transparent one. A canvas has
  the same shape.
\<close>

record 'p Image =
  width :: nat
  height :: nat
  pixel :: "nat \<Rightarrow> nat \<Rightarrow> 'p option"

record 'p Canvas =
  cwidth :: nat
  cheight :: nat
  bitmap :: "nat \<Rightarrow> nat \<Rightarrow> 'p option"

definition createCanvas :: "'p Canvas" where
  "createCanvas = \<lparr>cwidth = 300, cheight = 150, bitmap = (\<lambda>x y. None)\<rparr>"

text \<open>Assigning a dimension of a canvas clears its bitmap.\<close>

definition setWidth :: "nat \<Rightarrow> 'p Canvas \<Rightarrow> 'p Canvas" where
  "setWidth n c = c\<lparr>cwidth := n, bitmap := (\<lambda>x y. None)\<rparr>"

definition setHeight :: "nat \<Rightarrow> 'p Canvas \<Rightarrow> 'p Canvas" where
  "setHeight n c = c\<lparr>cheight := n, bitmap := (\<lambda>x y. None)\<rparr>"

text \<open>
  \<^verbatim>\<open>ctx.drawImage(img, sx, sy, sw, sh, dx, dy, sw, sh)\<close>: every call of the source
  passes the source size as the destination size, so the copy is unscaled. A pixel of the
  destination rectangle that lies on the canvas takes the source pixel when that one lies
  inside the image and is not transparent, and keeps its value otherwise.
\<close>

definition drawImage ::
  "'p Image \<Rightarrow> nat \<Rightarrow> nat \<Rightarrow> nat \<Rightarrow> nat \<Rightarrow> nat \<Rightarrow> nat \<Rightarrow> 'p Canvas \<Rightarrow> 'p Canvas" where
  "drawImage img sx sy sw sh dx dy c =
     c\<lparr>bitmap := (\<lambda>x y.
        if dx \<le> x \<and> x < dx + sw \<and> dy \<le> y \<and> y < dy + sh
           \<and> x < cwidth c \<and> y < cheight c
           \<and> sx + (x - dx) < width img \<and> sy + (y - dy) < height img
        then (case pixel img (sx + (x - dx)) (sy + (y - dy)) of
                None \<Rightarrow> bitmap c x y
              | Some p \<Rightarrow> Some p)
        else bitmap c x y)\<rparr>"

definition clearRect :: "nat \<Rightarrow> nat \<Rightarrow> nat \<Rightarrow> nat \<Rightarrow> 'p Canvas \<Rightarrow> 'p Canvas" where
  "clearRect x0 y0 w h c =
     c\<lparr>bitmap := (\<lambda>x y.
        if x0 \<le> x \<and> x < x0 + w \<and> y0 \<le> y \<and> y < y0 + h then None else bitmap c x y)\<rparr>"

text \<open>
  \<^verbatim>\<open>canvas.toDataURL('image/png')\<close> encodes the picture on the canvas; the encoder
  \<open>enc\<close> is a parameter.
\<close>

definition snapshot :: "'p Canvas \<Rightarrow> 'p Image" where
  "snapshot c = \<lparr>width = cwidth c, height = cheight c,
     pixel = (\<lambda>x y. if x < cwidth c \<and> y < cheight c then bitmap c x y else None)\<rparr>"

definition toDataURL :: "('p Image \<Rightarrow> 'u) \<Rightarrow> 'p Canvas \<Rightarrow> 'u" where
  "toDataURL enc c = enc (snapshot c)"

text \<open>
  \<open>splitImage\<close>. \<open>loadImage\<close> gives \<open>None\<close> when the image element fires
  \<^verbatim>\<open>onerror\<close>; \<open>hasContext\<close> tells whether \<^verbatim>\<open>getContext('2d')\<close> is not null.
\<close>

definition splitImage ::
  "(string \<Rightarrow> 'p Image option) \<Rightarrow> bool \<Rightarrow> ('p Image \<Rightarrow> 'u) \<Rightarrow> string \<Rightarrow> SplitDirection
     \<Rightarrow> exn + ('u \<times> 'u)" where
  "splitImage loadImage hasContext enc imageSrc direction =
     (case loadImage imageSrc of
        None \<Rightarrow> Inl LoadFailed
      | Some img \<Rightarrow>
          if \<not> hasContext then Inl NoCanvasContext
          else
            let w = width img; h = height img in
            if direction = Horizontal then
              let halfWidth = w div 2;
                  c1 = drawImage img 0 0 halfWidth h 0 0
                         (setHeight h (setWidth halfWidth createCanvas));
                  part1Base64 = toDataURL enc c1;
                  c2 = drawImage img halfWidth 0 halfWidth h 0 0
                         (clearRect 0 0 halfWidth h c1);
                  part2Base64 = toDataURL enc c2
              in Inr (part1Base64, part2Base64)
            else
              let halfHeight = h div 2;
                  c1 = drawImage img 0 0 w halfHeight 0 0
                         (setHeight halfHeight (setWidth w createCanvas));
                  part1Base64 = toDataURL enc c1;
                  c2 = drawImage img 0 halfHeight w halfHeight 0 0
                         (clearRect 0 0 w halfHeight c1);
                  part2Base64 = toDataURL enc c2
              in Inr (part1Base64, part2Base64))"

section \<open>services/geminiService.ts\<close>

text \<open>An optional field (\<^verbatim>\<open>baseUrl?: string\<close>) is an option.\<close>

record GeminiSettings =
  apiKey :: string
  baseUrl :: "string option"
  modelName :: "string option"

text \<open>
  \<^verbatim>\<open>x || y\<close> on an optional string: \<open>x\<close> when it is present and not empty, else \<open>y\<close>.
\<close>

definition truthy :: "string option \<Rightarrow> bool" where
  "truthy x = (case x of None \<Rightarrow> False | Some v \<Rightarrow> v \<noteq> [])"

definition orElse :: "string option \<Rightarrow> string \<Rightarrow> string" where
  "orElse x y = (case x of None \<Rightarrow> y | Some v \<Rightarrow> if v \<noteq> [] then v else y)"

text \<open>What one call of \<^verbatim>\<open>ai.models.generateContent\<close> sends, with the client's options.\<close>

record GenerateContentRequest =
  clientApiKey :: string
  clientBaseUrl :: "string option"
  model :: string
  promptText :: string
  inlineMimeType :: string
  inlineBase64 :: string
  aspectRatio :: string

text \<open>
  The part of the SDK's response type that the code reads:
  \<^verbatim>\<open>response.candidates?.[0]?.content?.parts\<close> and \<^verbatim>\<open>part.inlineData.data\<close>.
  The fields \<^verbatim>\<open>data\<close> of the inline data and \<^verbatim>\<open>text\<close> of a part are
  \<open>inlineBytes\<close> and \<open>partText\<close> here.
\<close>

record InlineData =
  mimeType :: "string option"
  inlineBytes :: "string option"

record Part =
  partText :: "string option"
  inlineData :: "InlineData option"

record Content =
  parts :: "Part list option"

record Candidate =
  content :: "Content option"

record GenerateContentResponse =
  candidates :: "Candidate list option"

text \<open>\<^verbatim>\<open>s.split(',')\<close>: the segments between the commas, at least one.\<close>

fun splitComma :: "string \<Rightarrow> string list" where
  "splitComma [] = [[]]"
| "splitComma (c # cs) =
     (if c = CHR '','' then [] # splitComma cs
      else (case splitComma cs of [] \<Rightarrow> [[c]] | seg # segs \<Rightarrow> (c # seg) # segs))"

definition cleanBase64 :: "string \<Rightarrow> string" where
  "cleanBase64 base64Image =
     (case splitComma base64Image of
        _ # seg # _ \<Rightarrow> if seg \<noteq> [] then seg else base64Image
      | _ \<Rightarrow> base64Image)"

definition expansionPrompt :: string where
  "expansionPrompt = ''This is a cropped section of a larger image. Generate a new, complete high-quality version of this image that fits a 3:4 aspect ratio. Seamlessly extend the background and content to fill the new aspect ratio while preserving the original style, lighting, and details.''"

text \<open>The loop over the parts: the data of the first part that has inline data, not empty.\<close>

fun scanParts :: "Part list \<Rightarrow> string option" where
  "scanParts [] = None"
| "scanParts (part # rest) =
     (case inlineData part of
        None \<Rightarrow> scanParts rest
      | Some d \<Rightarrow> if truthy (inlineBytes d) then inlineBytes d else scanParts rest)"

definition firstCandidateParts :: "GenerateContentResponse \<Rightarrow> Part list option" where
  "firstCandidateParts response =
     (case candidates response of
        None \<Rightarrow> None
      | Some [] \<Rightarrow> None
      | Some (c # _) \<Rightarrow> (case content c of None \<Rightarrow> None | Some ct \<Rightarrow> parts ct))"

text \<open>
  \<open>expandImageWithGemini\<close> in two halves, before and after its one \<^verbatim>\<open>await\<close>: the
  request it sends, unless it throws first, and what it makes of the settled call.
\<close>

definition expandImageWithGemini_request ::
  "string \<Rightarrow> GeminiSettings \<Rightarrow> exn + GenerateContentRequest" where
  "expandImageWithGemini_request base64Image settings =
     (if apiKey settings = [] then Inl MissingKey
      else Inr \<lparr>clientApiKey = apiKey settings,
                clientBaseUrl = (if truthy (baseUrl settings) then baseUrl settings else None),
                model = orElse (modelName settings) ''gemini-2.5-flash-image'',
                promptText = expansionPrompt,
                inlineMimeType = ''image/png'',
                inlineBase64 = cleanBase64 base64Image,
                aspectRatio = ''3:4''\<rparr>)"

definition expandImageWithGemini_response ::
  "exn + GenerateContentResponse \<Rightarrow> exn + string" where
  "expandImageWithGemini_response settled =
     (case settled of
        Inl e \<Rightarrow> Inl e
      | Inr response \<Rightarrow>
          (case firstCandidateParts response of
             None \<Rightarrow> Inl NoImageData
           | Some ps \<Rightarrow>
               (case scanParts ps of
                  None \<Rightarrow> Inl NoImageData
                | Some d \<Rightarrow> Inr (''data:image/png;base64,'' @ d))))"

text \<open>
  The whole function over a network \<open>generateContent\<close>: its result, the requests it sent
  and the errors its \<^verbatim>\<open>catch\<close> block logged before throwing them again.
\<close>

definition expandImageWithGemini ::
  "(GenerateContentRequest \<Rightarrow> exn + GenerateContentResponse) \<Rightarrow> string \<Rightarrow> GeminiSettings
     \<Rightarrow> (exn + string) \<times> GenerateContentRequest list \<times> exn list" where
  "expandImageWithGemini generateContent base64Image settings =
     (case expandImageWithGemini_request base64Image settings of
        Inl e \<Rightarrow> (Inl e, [], [])
      | Inr rq \<Rightarrow>
          (case expandImageWithGemini_response (generateContent rq) of
             Inl e \<Rightarrow> (Inl e, [rq], [e])
           | Inr expanded \<Rightarrow> (Inr expanded, [rq], [])))"

section \<open>The App component\<close>

text \<open>The literal type \<^verbatim>\<open>1 | 2\<close> of a part number.\<close>

datatype partNumber = One | Two

text \<open>\<^verbatim>\<open>item[partKey]\<close> and \<^verbatim>\<open>{...item, [partKey]: f(item[partKey])}\<close>.\<close>

definition partOf :: "partNumber \<Rightarrow> ProcessedImage \<Rightarrow> SplitPart" where
  "partOf n item = (case n of One \<Rightarrow> splitPart1 item | Two \<Rightarrow> splitPart2 item)"

definition withPart :: "partNumber \<Rightarrow> (SplitPart \<Rightarrow> SplitPart) \<Rightarrow> ProcessedImage \<Rightarrow> ProcessedImage" where
  "withPart n f item =
     (case n of
        One \<Rightarrow> item\<lparr>splitPart1 := f (splitPart1 item)\<rparr>
      | Two \<Rightarrow> item\<lparr>splitPart2 := f (splitPart2 item)\<rparr>)"

text \<open>
  An async function that waits at an \<^verbatim>\<open>await\<close> is a task, holding what its closure
  holds: \<open>startProcessing\<close> waiting for \<open>splitImage\<close> of an item, with the items still
  to do, and \<open>processImagePart\<close> waiting for \<open>expandImageWithGemini\<close>, which has sent a
  request or has thrown already.
\<close>

datatype task =
  AwaitSplit ProcessedImage "ProcessedImage list" SplitDirection GeminiSettings
  | AwaitExpand string partNumber "exn + GenerateContentRequest"

text \<open>
  The state of the component, and with it what the component has done to the world: the
  local storage, the tasks waiting, the requests sent to the network, the calls of
  \<open>splitImage\<close>, the lines of \<^verbatim>\<open>console.error\<close>. \<open>history\<close> keeps the value of
  \<open>items\<close> after every \<^verbatim>\<open>setItems\<close>, the latest first.
\<close>

record App =
  items :: "ProcessedImage list"
  splitDirection :: SplitDirection
  isProcessing :: bool
  showSettings :: bool
  settings :: GeminiSettings
  storage :: "string \<Rightarrow> string option"
  pending :: "task list"
  requests :: "GenerateContentRequest list"
  splitCalls :: "(string \<times> SplitDirection) list"
  console :: "string list"
  history :: "ProcessedImage list list"

definition DEFAULT_MODEL :: string where
  "DEFAULT_MODEL = ''gemini-2.5-flash-image''"

text \<open>The state after the first render and the effect that loads the settings.\<close>

definition initApp :: "(string \<Rightarrow> string option) \<Rightarrow> App" where
  "initApp store =
     \<lparr>items = [], splitDirection = Horizontal, isProcessing = False,
      showSettings = \<not> truthy (store ''gemini_api_key''),
      settings = \<lparr>apiKey = orElse (store ''gemini_api_key'') [],
                  baseUrl = Some (orElse (store ''gemini_base_url'') []),
                  modelName = Some (orElse (store ''gemini_model'') DEFAULT_MODEL)\<rparr>,
      storage = store, pending = [], requests = [], splitCalls = [], console = [],
      history = [[]]\<rparr>"

definition saveSettings :: "GeminiSettings \<Rightarrow> App \<Rightarrow> App" where
  "saveSettings newSettings s =
     s\<lparr>settings := newSettings,
       storage := (storage s)
         (''gemini_api_key'' := Some (apiKey newSettings),
          ''gemini_base_url'' := (if truthy (baseUrl newSettings) then baseUrl newSettings else None),
          ''gemini_model'' := (if truthy (modelName newSettings) then modelName newSettings else None)),
       showSettings := False\<rparr>"

definition setItems :: "(ProcessedImage list \<Rightarrow> ProcessedImage list) \<Rightarrow> App \<Rightarrow> App" where
  "setItems f s = s\<lparr>items := f (items s), history := f (items s) # history s\<rparr>"

subsection \<open>handleFilesAdded\<close>

text \<open>
  \<open>readFileAsDataURL\<close> gives \<open>None\<close> when the reader fails, which rejects the whole
  handler before its \<^verbatim>\<open>setItems\<close>; \<open>uuidv4 k\<close> is the identifier that call \<open>k\<close> of
  the generator returns.
\<close>

fun handleFilesAdded_loop ::
  "(File \<Rightarrow> string option) \<Rightarrow> (nat \<Rightarrow> string) \<Rightarrow> File list \<Rightarrow> ProcessedImage list
     \<Rightarrow> exn + ProcessedImage list" where
  "handleFilesAdded_loop readFileAsDataURL uuidv4 [] newItems = Inr newItems"
| "handleFilesAdded_loop readFileAsDataURL uuidv4 (f # files) newItems =
     (case readFileAsDataURL f of
        None \<Rightarrow> Inl ReadFailed
      | Some original \<Rightarrow>
          handleFilesAdded_loop readFileAsDataURL uuidv4 files
            (newItems @
              [\<lparr>item_id = uuidv4 (length newItems), originalUrl = original, itemFile = f,
                splitPart1 = \<lparr>url = None, expandedUrl = None, status = Idle\<rparr>,
                splitPart2 = \<lparr>url = None, expandedUrl = None, status = Idle\<rparr>\<rparr>]))"

definition handleFilesAdded ::
  "(File \<Rightarrow> string option) \<Rightarrow> (nat \<Rightarrow> string) \<Rightarrow> File list \<Rightarrow> App \<Rightarrow> App" where
  "handleFilesAdded readFileAsDataURL uuidv4 files s =
     (case handleFilesAdded_loop readFileAsDataURL uuidv4 files [] of
        Inl e \<Rightarrow> s
      | Inr newItems \<Rightarrow> setItems (\<lambda>prev. newItems @ prev) s)"

subsection \<open>processImagePart\<close>

text \<open>The three updaters that \<open>processImagePart\<close> passes to \<^verbatim>\<open>setItems\<close>.\<close>

definition markExpanding :: "string \<Rightarrow> partNumber \<Rightarrow> ProcessedImage list \<Rightarrow> ProcessedImage list" where
  "markExpanding itemId n prev =
     map (\<lambda>item. if item_id item \<noteq> itemId then item
                  else withPart n (\<lambda>p. p\<lparr>status := Expanding\<rparr>) item) prev"

definition markDone ::
  "string \<Rightarrow> partNumber \<Rightarrow> string \<Rightarrow> ProcessedImage list \<Rightarrow> ProcessedImage list" where
  "markDone itemId n expandedBase64 prev =
     map (\<lambda>item. if item_id item \<noteq> itemId then item
                  else withPart n (\<lambda>p. p\<lparr>expandedUrl := Some expandedBase64, status := Done\<rparr>) item)
       prev"

definition markError :: "string \<Rightarrow> partNumber \<Rightarrow> ProcessedImage list \<Rightarrow> ProcessedImage list" where
  "markError itemId n prev =
     map (\<lambda>item. if item_id item \<noteq> itemId then item
                  else withPart n (\<lambda>p. p\<lparr>status := Error\<rparr>) item) prev"

text \<open>Up to the \<^verbatim>\<open>await\<close>: the status update, then the call of the expander.\<close>

definition processImagePart :: "string \<Rightarrow> partNumber \<Rightarrow> string \<Rightarrow> GeminiSettings \<Rightarrow> App \<Rightarrow> App" where
  "processImagePart itemId n croppedBase64 currentSettings s =
     (let s1 = setItems (markExpanding itemId n) s;
          call = expandImageWithGemini_request croppedBase64 currentSettings
      in s1\<lparr>requests := requests s1 @ (case call of Inl e \<Rightarrow> [] | Inr rq \<Rightarrow> [rq]),
            pending := pending s1 @ [AwaitExpand itemId n call]\<rparr>)"

text \<open>
  After the \<^verbatim>\<open>await\<close>: \<open>settled\<close> is how the network call ended; a call that was
  never sent has its error already.
\<close>

definition processImagePart_resume ::
  "string \<Rightarrow> partNumber \<Rightarrow> exn + GenerateContentRequest \<Rightarrow> exn + GenerateContentResponse
     \<Rightarrow> App \<Rightarrow> App" where
  "processImagePart_resume itemId n call settled s =
     (case call of
        Inl e \<Rightarrow>
          setItems (markError itemId n) (s\<lparr>console := console s @ [''Expansion failed'']\<rparr>)
      | Inr rq \<Rightarrow>
          (case expandImageWithGemini_response settled of
             Inr expandedBase64 \<Rightarrow> setItems (markDone itemId n expandedBase64) s
           | Inl e \<Rightarrow>
               setItems (markError itemId n)
                 (s\<lparr>console := console s @ [''Gemini expansion error:'', ''Expansion failed'']\<rparr>)))"

subsection \<open>startProcessing\<close>

definition markSplitting :: "string \<Rightarrow> ProcessedImage list \<Rightarrow> ProcessedImage list" where
  "markSplitting itemId prev =
     map (\<lambda>i. if item_id i = itemId
               then i\<lparr>splitPart1 := (splitPart1 i)\<lparr>status := Splitting\<rparr>,
                      splitPart2 := (splitPart2 i)\<lparr>status := Splitting\<rparr>\<rparr>
               else i) prev"

definition markSplit :: "string \<Rightarrow> string \<Rightarrow> string \<Rightarrow> ProcessedImage list \<Rightarrow> ProcessedImage list" where
  "markSplit itemId part1 part2 prev =
     map (\<lambda>i. if item_id i = itemId
               then i\<lparr>splitPart1 := (splitPart1 i)\<lparr>url := Some part1, status := Idle\<rparr>,
                      splitPart2 := (splitPart2 i)\<lparr>url := Some part2, status := Idle\<rparr>\<rparr>
               else i) prev"

text \<open>
  The \<^verbatim>\<open>for\<close> loop from the head of an iteration to its \<^verbatim>\<open>await\<close>, or to the end
  of the function when no item is left.
\<close>

fun startProcessing_loop ::
  "ProcessedImage list \<Rightarrow> SplitDirection \<Rightarrow> GeminiSettings \<Rightarrow> App \<Rightarrow> App" where
  "startProcessing_loop [] dir cfg s = s\<lparr>isProcessing := False\<rparr>"
| "startProcessing_loop (item # rest) dir cfg s =
     (let s1 = setItems (markSplitting (item_id item)) s
      in s1\<lparr>splitCalls := splitCalls s1 @ [(originalUrl item, dir)],
            pending := pending s1 @ [AwaitSplit item rest dir cfg]\<rparr>)"

definition startProcessing :: "App \<Rightarrow> App" where
  "startProcessing s =
     (if apiKey (settings s) = [] then s\<lparr>showSettings := True\<rparr>
      else
        let s1 = s\<lparr>isProcessing := True\<rparr>;
            itemsToProcess =
              filter (\<lambda>i. status (splitPart1 i) = Idle \<and> status (splitPart2 i) = Idle) (items s)
        in startProcessing_loop itemsToProcess (splitDirection s) (settings s) s1)"

text \<open>
  The rest of an iteration once \<open>splitImage\<close> has settled with \<open>split\<close>, and on into the
  next one.
\<close>

definition startProcessing_resume ::
  "ProcessedImage \<Rightarrow> ProcessedImage list \<Rightarrow> SplitDirection \<Rightarrow> GeminiSettings
     \<Rightarrow> exn + (string \<times> string) \<Rightarrow> App \<Rightarrow> App" where
  "startProcessing_resume item rest dir cfg split s =
     (case split of
        Inr (part1, part2) \<Rightarrow>
          (let s1 = setItems (markSplit (item_id item) part1 part2) s;
               s2 = processImagePart (item_id item) One part1 cfg s1;
               s3 = processImagePart (item_id item) Two part2 cfg s2
           in startProcessing_loop rest dir cfg s3)
      | Inl e \<Rightarrow>
          startProcessing_loop rest dir cfg (s\<lparr>console := console s @ [''Splitting error'']\<rparr>))"

subsection \<open>retryPart, removeItem, clearAll\<close>

definition retryPart :: "string \<Rightarrow> partNumber \<Rightarrow> App \<Rightarrow> App" where
  "retryPart ident n s =
     (if apiKey (settings s) = [] then s\<lparr>showSettings := True\<rparr>
      else
        (case find (\<lambda>i. item_id i = ident) (items s) of
           None \<Rightarrow> s
         | Some item \<Rightarrow>
             (let partData = (case n of One \<Rightarrow> splitPart1 item | Two \<Rightarrow> splitPart2 item)
              in case url partData of
                   None \<Rightarrow> s
                 | Some u \<Rightarrow> if u \<noteq> [] then processImagePart ident n u (settings s) s else s)))"

definition removeItem :: "string \<Rightarrow> App \<Rightarrow> App" where
  "removeItem ident s = setItems (filter (\<lambda>item. item_id item \<noteq> ident)) s"

definition clearAll :: "bool \<Rightarrow> App \<Rightarrow> App" where
  "clearAll confirmed s = (if confirmed then setItems (\<lambda>prev. []) s else s)"

section \<open>components/Dropzone.tsx\<close>

text \<open>
  An entry of the dropped file tree: a file, a directory with the results that its reader
  hands out call by call (a batch of entries, or an error), or an entry that is neither.
  A reader whose results have run out hands out the empty batch.
\<close>

datatype entry =
  FileEntry File
  | DirEntry string "(exn + entry list) list"
  | OtherEntry

fun readAllEntries :: "(exn + 'a list) list \<Rightarrow> 'a list \<Rightarrow> exn + 'a list" where
  "readAllEntries [] entries = Inr entries"
| "readAllEntries (Inl e # later) entries = Inl e"
| "readAllEntries (Inr batch # later) entries =
     (if batch \<noteq> [] then readAllEntries later (entries @ batch) else Inr entries)"

lemma readAllEntries_mem:
  "readAllEntries reader acc = Inr entries \<Longrightarrow> x \<in> set entries \<Longrightarrow>
     x \<in> set acc \<or> (\<exists>b. Inr b \<in> set reader \<and> x \<in> set b)"
  by (induction reader acc rule: readAllEntries.induct) (auto split: if_splits)

definition startsWith :: "string \<Rightarrow> string \<Rightarrow> bool" where
  "startsWith p s = (take (length p) s = p)"

text \<open>
  \<open>traverseFileTree\<close>; its \<^verbatim>\<open>path\<close> argument does not reach the result and is left
  out. A directory that cannot be read gives no file.
\<close>

function traverseFileTree :: "entry \<Rightarrow> File list" where
  "traverseFileTree (FileEntry f) = (if startsWith ''image/'' (ftype f) then [f] else [])"
| "traverseFileTree (DirEntry name reader) =
     (case readAllEntries reader [] of
        Inl e \<Rightarrow> []
      | Inr entries \<Rightarrow> concat (map traverseFileTree entries))"
| "traverseFileTree OtherEntry = []"
  by pat_completeness auto
termination
proof (relation "measure size", goal_cases)
  case 1
  show ?case by simp
next
  case (2 name reader entries x)
  then obtain b where b: "Inr b \<in> set reader" "x \<in> set b"
    using readAllEntries_mem[of reader "[]" entries x] by auto
  have "size x < Suc (size_list size b)"
    using b(2) by (simp add: less_Suc_eq_le size_list_estimation')
  also have "\<dots> \<le> size_list (size_sum (\<lambda>_. 0) (size_list size)) reader"
    using b(1)
      size_list_estimation'[of "Inr b" reader "size_sum (\<lambda>_. 0) (size_list size) (Inr b)"
        "size_sum (\<lambda>_. 0) (size_list size)"]
    by simp
  finally show ?case by simp
qed

text \<open>
  The two handlers give the argument of their call of \<^verbatim>\<open>onFilesAdded\<close>, \<open>None\<close> when
  they do not call it. \<open>handleDrop\<close> gets the entries of \<^verbatim>\<open>dataTransfer.items\<close>
  (\<open>None\<close> where \<^verbatim>\<open>webkitGetAsEntry\<close> is null) when the browser has that list, and
  \<^verbatim>\<open>dataTransfer.files\<close>.
\<close>

definition handleFileSelect :: "File list option \<Rightarrow> bool \<Rightarrow> File list option" where
  "handleFileSelect targetFiles processing =
     (case targetFiles of
        None \<Rightarrow> None
      | Some fs \<Rightarrow>
          if \<not> processing then Some (filter (\<lambda>f. startsWith ''image/'' (ftype f)) fs) else None)"

definition handleDrop :: "entry option list option \<Rightarrow> File list \<Rightarrow> bool \<Rightarrow> File list option" where
  "handleDrop dtItems dtFiles processing =
     (if processing then None
      else
        let files =
          (case dtItems of
             Some its \<Rightarrow>
               concat (map (\<lambda>i. case i of None \<Rightarrow> [] | Some item \<Rightarrow> traverseFileTree item) its)
           | None \<Rightarrow> filter (\<lambda>f. startsWith ''image/'' (ftype f)) dtFiles)
        in if files \<noteq> [] then Some files else None)"

text \<open>
  The component wired as the App renders it: \<^verbatim>\<open>onFilesAdded\<close> is
  \<open>handleFilesAdded\<close>, \<^verbatim>\<open>isProcessing\<close> is the App's.
\<close>

definition onFilesAdded ::
  "(File \<Rightarrow> string option) \<Rightarrow> (nat \<Rightarrow> string) \<Rightarrow> File list option \<Rightarrow> App \<Rightarrow> App" where
  "onFilesAdded readFileAsDataURL uuidv4 call s =
     (case call of None \<Rightarrow> s | Some files \<Rightarrow> handleFilesAdded readFileAsDataURL uuidv4 files s)"

definition selectFiles ::
  "(File \<Rightarrow> string option) \<Rightarrow> (nat \<Rightarrow> string) \<Rightarrow> File list option \<Rightarrow> App \<Rightarrow> App" where
  "selectFiles readFileAsDataURL uuidv4 targetFiles s =
     onFilesAdded readFileAsDataURL uuidv4 (handleFileSelect targetFiles (isProcessing s)) s"

definition dropFiles ::
  "(File \<Rightarrow> string option) \<Rightarrow> (nat \<Rightarrow> string) \<Rightarrow> entry option list option \<Rightarrow> File list
     \<Rightarrow> App \<Rightarrow> App" where
  "dropFiles readFileAsDataURL uuidv4 dtItems dtFiles s =
     onFilesAdded readFileAsDataURL uuidv4 (handleDrop dtItems dtFiles (isProcessing s)) s"

section \<open>Notions of the specification and sample data\<close>

text \<open>The other half of an item.\<close>

definition sibling :: "partNumber \<Rightarrow> partNumber" where
  "sibling n = (case n of One \<Rightarrow> Two | Two \<Rightarrow> One)"

text \<open>
  The image payloads of a response, in the order of the response: of a part, its inline
  data when it is not empty; of a candidate, those of its parts; of the response, those of
  all its candidates, or of its first candidate only.
\<close>

definition partPayload :: "Part \<Rightarrow> string option" where
  "partPayload part =
     (case inlineData part of
        None \<Rightarrow> None
      | Some d \<Rightarrow> if truthy (inlineBytes d) then inlineBytes d else None)"

definition candidatePayloads :: "Candidate \<Rightarrow> string list" where
  "candidatePayloads c =
     (case content c of
        None \<Rightarrow> []
      | Some ct \<Rightarrow> (case parts ct of None \<Rightarrow> [] | Some ps \<Rightarrow> List.map_filter partPayload ps))"

definition responsePayloads :: "GenerateContentResponse \<Rightarrow> string list" where
  "responsePayloads r =
     (case candidates r of None \<Rightarrow> [] | Some cs \<Rightarrow> concat (map candidatePayloads cs))"

definition firstCandidatePayloads :: "GenerateContentResponse \<Rightarrow> string list" where
  "firstCandidatePayloads r =
     (case candidates r of None \<Rightarrow> [] | Some [] \<Rightarrow> [] | Some (c # _) \<Rightarrow> candidatePayloads c)"

text \<open>Concrete values on which the theorems below are run.\<close>

definition demoImage :: "nat Image" where
  "demoImage = \<lparr>width = 5, height = 3, pixel = (\<lambda>x y. if x < 5 \<and> y < 3 then Some (x + 5 * y) else None)\<rparr>"

definition demoFile :: File where
  "demoFile = \<lparr>fname = ''a.png'', ftype = ''image/png''\<rparr>"

definition demoPart :: "string option \<Rightarrow> ProcessStatus \<Rightarrow> SplitPart" where
  "demoPart u st = \<lparr>url = u, expandedUrl = None, status = st\<rparr>"

definition demoItem :: "string \<Rightarrow> SplitPart \<Rightarrow> SplitPart \<Rightarrow> ProcessedImage" where
  "demoItem ident p1 p2 =
     \<lparr>item_id = ident, originalUrl = ''data:image/png;base64,AAAA'', itemFile = demoFile,
      splitPart1 = p1, splitPart2 = p2\<rparr>"

definition demoSettings :: "string \<Rightarrow> GeminiSettings" where
  "demoSettings k = \<lparr>apiKey = k, baseUrl = Some [], modelName = Some DEFAULT_MODEL\<rparr>"

definition demoApp :: "string \<Rightarrow> ProcessedImage list \<Rightarrow> App" where
  "demoApp k xs =
     \<lparr>items = xs, splitDirection = Horizontal, isProcessing = False, showSettings = False,
      settings = demoSettings k, storage = (\<lambda>k. None), pending = [], requests = [],
      splitCalls = [], console = [], history = [xs]\<rparr>"

definition demoTextPart :: Part where
  "demoTextPart = \<lparr>partText = Some ''no picture'', inlineData = None\<rparr>"

definition demoImagePart :: "string \<Rightarrow> Part" where
  "demoImagePart d =
     \<lparr>partText = None, inlineData = Some \<lparr>mimeType = Some ''image/png'', inlineBytes = Some d\<rparr>\<rparr>"

definition demoCandidate :: "Part list \<Rightarrow> Candidate" where
  "demoCandidate ps = \<lparr>content = Some \<lparr>parts = Some ps\<rparr>\<rparr>"

definition demoResponse :: "Part list list \<Rightarrow> GenerateContentResponse" where
  "demoResponse pss = \<lparr>candidates = Some (map demoCandidate pss)\<rparr>"

definition demoRequest :: GenerateContentRequest where
  "demoRequest = \<lparr>clientApiKey = ''key'', clientBaseUrl = None, model = DEFAULT_MODEL,
     promptText = expansionPrompt, inlineMimeType = ''image/png'', inlineBase64 = ''AAAA'',
     aspectRatio = ''3:4''\<rparr>"

definition demoText :: File where
  "demoText = \<lparr>fname = ''notes.txt'', ftype = ''text/plain''\<rparr>"

text \<open>
  The files that a drop supplies. \<open>scannedFiles\<close> is the recursive scan of an entry with
  no filter: the file of a file entry, the files under the entries that the reader of a
  directory hands out, none for a directory that cannot be read and for an entry that is
  neither. \<open>droppedFiles\<close> are the files of a drop: those under its entries when the
  browser has the list of entries, and \<^verbatim>\<open>dataTransfer.files\<close> otherwise.
\<close>

function scannedFiles :: "entry \<Rightarrow> File list" where
  "scannedFiles (FileEntry f) = [f]"
| "scannedFiles (DirEntry name reader) =
     (case readAllEntries reader [] of
        Inl e \<Rightarrow> []
      | Inr entries \<Rightarrow> concat (map scannedFiles entries))"
| "scannedFiles OtherEntry = []"
  by pat_completeness auto
termination
proof (relation "measure size", goal_cases)
  case 1
  show ?case by simp
next
  case (2 name reader entries x)
  then obtain b where b: "Inr b \<in> set reader" "x \<in> set b"
    using readAllEntries_mem[of reader "[]" entries x] by auto
  have "size x < Suc (size_list size b)"
    using b(2) by (simp add: less_Suc_eq_le size_list_estimation')
  also have "\<dots> \<le> size_list (size_sum (\<lambda>_. 0) (size_list size)) reader"
    using b(1)
      size_list_estimation'[of "Inr b" reader "size_sum (\<lambda>_. 0) (size_list size) (Inr b)"
        "size_sum (\<lambda>_. 0) (size_list size)"]
    by simp
  finally show ?case by simp
qed

definition droppedFiles :: "entry option list option \<Rightarrow> File list \<Rightarrow> File list" where
  "droppedFiles dtItems dtFiles =
     (case dtItems of
        Some its \<Rightarrow> concat (map (\<lambda>i. case i of None \<Rightarrow> [] | Some item \<Rightarrow> scannedFiles item) its)
      | None \<Rightarrow> dtFiles)"

text \<open>
  Two dropped folders: one with a text file, a folder of its own with a JPEG file, and a
  PNG file in a second batch of its reader; one with a text file only.
\<close>

definition demoPhoto :: File where
  "demoPhoto = \<lparr>fname = ''b.jpg'', ftype = ''image/jpeg''\<rparr>"

definition demoTree :: entry where
  "demoTree =
     DirEntry ''shots''
       [Inr [FileEntry demoText, DirEntry ''sub'' [Inr [FileEntry demoPhoto]]],
        Inr [FileEntry demoFile]]"

definition demoDocs :: entry where
  "demoDocs = DirEntry ''docs'' [Inr [FileEntry demoText]]"

section \<open>The component as a transition system\<close>

text \<open>
  What can happen to the component: the user acts on a control that the component
  renders, or a call that a task waits for settles. An upload is a call of
  \<open>handleFilesAdded\<close> by the drop zone, with the reader and the generator of identifiers
  of that call. A settled split carries the result of \<open>splitImage\<close>, a settled
  expansion how the network call ended.
\<close>

datatype event =
  Upload "File \<Rightarrow> string option" "nat \<Rightarrow> string" "File list"
  | Start
  | SplitSettled ProcessedImage "ProcessedImage list" SplitDirection GeminiSettings
      "exn + string \<times> string"
  | ExpandSettled string partNumber "exn + GenerateContentRequest"
      "exn + GenerateContentResponse"
  | Retry string partNumber
  | Remove string
  | Clear bool
  | Save GeminiSettings
  | Direction SplitDirection
  | ShowSettings bool

fun fire :: "event \<Rightarrow> App \<Rightarrow> App" where
  "fire (Upload readFileAsDataURL uuidv4 files) s = handleFilesAdded readFileAsDataURL uuidv4 files s"
| "fire Start s = startProcessing s"
| "fire (SplitSettled item rest dir cfg split) s =
     startProcessing_resume item rest dir cfg split
       (s\<lparr>pending := remove1 (AwaitSplit item rest dir cfg) (pending s)\<rparr>)"
| "fire (ExpandSettled itemId n call settled) s =
     processImagePart_resume itemId n call settled
       (s\<lparr>pending := remove1 (AwaitExpand itemId n call) (pending s)\<rparr>)"
| "fire (Retry ident n) s = retryPart ident n s"
| "fire (Remove ident) s = removeItem ident s"
| "fire (Clear confirmed) s = clearAll confirmed s"
| "fire (Save newSettings) s = saveSettings newSettings s"
| "fire (Direction d) s = s\<lparr>splitDirection := d\<rparr>"
| "fire (ShowSettings b) s = s\<lparr>showSettings := b\<rparr>"

text \<open>The identifiers that a task holds, and those that the state holds anywhere.\<close>

fun taskIds :: "task \<Rightarrow> string list" where
  "taskIds (AwaitSplit item rest dir cfg) = map item_id (item # rest)"
| "taskIds (AwaitExpand itemId n call) = [itemId]"

definition usedIds :: "App \<Rightarrow> string set" where
  "usedIds s = set (map item_id (items s)) \<union> set (concat (map taskIds (pending s)))"

text \<open>
  When an event can happen. The batch button is disabled as the App renders it; the retry
  button of a half is rendered when the half is in error, the remove button with the card
  of the item; a call settles for a task that waits; \<open>uuidv4\<close> returns identifiers that
  are new and differ from each other.
\<close>

fun enabled :: "event \<Rightarrow> App \<Rightarrow> bool" where
  "enabled (Upload readFileAsDataURL uuidv4 files) s =
     (distinct (map uuidv4 [0..<length files])
      \<and> (\<forall>k\<in>set (map uuidv4 [0..<length files]). k \<notin> usedIds s))"
| "enabled Start s =
     (\<not> (isProcessing s \<or> items s = []
          \<or> list_all (\<lambda>i. status (splitPart1 i) = Done \<or> status (splitPart1 i) = Expanding)
               (items s)))"
| "enabled (SplitSettled item rest dir cfg split) s = (AwaitSplit item rest dir cfg \<in> set (pending s))"
| "enabled (ExpandSettled itemId n call settled) s = (AwaitExpand itemId n call \<in> set (pending s))"
| "enabled (Retry ident n) s =
     (\<exists>i\<in>set (items s). item_id i = ident \<and> status (partOf n i) = Error)"
| "enabled (Remove ident) s = (ident \<in> item_id ` set (items s))"
| "enabled (Clear confirmed) s = (items s \<noteq> [])"
| "enabled (Save newSettings) s = showSettings s"
| "enabled (Direction d) s = True"
| "enabled (ShowSettings b) s = True"

inductive reachable :: "App \<Rightarrow> bool" where
  init: "reachable (initApp store)"
| step: "reachable s \<Longrightarrow> enabled e s \<Longrightarrow> reachable (fire e s)"

text \<open>
  The status changes of a half. \<open>edges e\<close> are the changes that event \<open>e\<close> may make,
  \<open>allowed\<close> those that any event may make. \<open>ok_trans R old new\<close> compares two
  values of \<open>items\<close>: an item of \<open>new\<close> whose identifier is not in \<open>old\<close> has both
  halves idle, and a half of an item of both has kept its status or changed it along
  \<open>R\<close>. \<open>steps_ok R h\<close> says so of each value in a history and the value before it.
\<close>

fun edges :: "event \<Rightarrow> ProcessStatus \<Rightarrow> ProcessStatus \<Rightarrow> bool" where
  "edges Start a b = (a = Idle \<and> b = Splitting)"
| "edges (SplitSettled item rest dir cfg split) a b =
     (a = Splitting \<and> b = Idle \<or> a = Idle \<and> b = Expanding \<or> a = Idle \<and> b = Splitting)"
| "edges (ExpandSettled itemId n call settled) a b = (a = Expanding \<and> (b = Done \<or> b = Error))"
| "edges (Retry ident n) a b = (a = Error \<and> b = Expanding)"
| "edges e a b = False"

definition allowed :: "ProcessStatus \<Rightarrow> ProcessStatus \<Rightarrow> bool" where
  "allowed a b =
     (a = Idle \<and> b = Splitting \<or> a = Splitting \<and> b = Idle \<or> a = Idle \<and> b = Expanding
      \<or> a = Expanding \<and> b = Done \<or> a = Expanding \<and> b = Error \<or> a = Error \<and> b = Expanding)"

definition ok_trans ::
  "(ProcessStatus \<Rightarrow> ProcessStatus \<Rightarrow> bool) \<Rightarrow> ProcessedImage list \<Rightarrow> ProcessedImage list \<Rightarrow> bool" where
  "ok_trans R old new =
     (\<forall>j\<in>set new.
        (item_id j \<notin> item_id ` set old \<longrightarrow> (\<forall>n. status (partOf n j) = Idle))
        \<and> (\<forall>i\<in>set old. item_id i = item_id j \<longrightarrow>
             (\<forall>n. status (partOf n i) = status (partOf n j)
                  \<or> R (status (partOf n i)) (status (partOf n j)))))"

fun steps_ok ::
  "(ProcessStatus \<Rightarrow> ProcessStatus \<Rightarrow> bool) \<Rightarrow> ProcessedImage list list \<Rightarrow> bool" where
  "steps_ok R (new # old # h) = (ok_trans R old new \<and> steps_ok R (old # h))"
| "steps_ok R h = True"

text \<open>
  The invariant of the states that can be reached. Of the tasks alone: no two expansion
  tasks wait for the same half, at most one split task waits, the items that it holds
  differ in their identifiers and no expansion task waits for one of them. Of an item
  against the tasks: a half that an expansion task waits for is expanding, the item that a
  split task waits for is splitting, the items that the task has still to do are idle.
  Of the state: identifiers of items differ, the split task waits only while the
  component is processing, and \<open>history\<close> starts with the current items.
\<close>

fun expandKeys :: "task list \<Rightarrow> (string \<times> partNumber) list" where
  "expandKeys [] = []"
| "expandKeys (AwaitExpand itemId n call # ts) = (itemId, n) # expandKeys ts"
| "expandKeys (AwaitSplit item rest dir cfg # ts) = expandKeys ts"

fun splitTasks :: "task list \<Rightarrow> (ProcessedImage \<times> ProcessedImage list) list" where
  "splitTasks [] = []"
| "splitTasks (AwaitSplit item rest dir cfg # ts) = (item, rest) # splitTasks ts"
| "splitTasks (AwaitExpand itemId n call # ts) = splitTasks ts"

definition tasks_ok :: "task list \<Rightarrow> bool" where
  "tasks_ok ts =
     (distinct (expandKeys ts)
      \<and> length (splitTasks ts) \<le> 1
      \<and> (\<forall>(item, rest)\<in>set (splitTasks ts).
            distinct (map item_id (item # rest))
            \<and> (\<forall>x\<in>set (item # rest). \<forall>n. (item_id x, n) \<notin> set (expandKeys ts))))"

definition item_ok :: "task list \<Rightarrow> ProcessedImage \<Rightarrow> bool" where
  "item_ok ts i =
     ((\<forall>n. (item_id i, n) \<in> set (expandKeys ts) \<longrightarrow> status (partOf n i) = Expanding)
      \<and> (\<forall>(item, rest)\<in>set (splitTasks ts).
            (item_id i = item_id item \<longrightarrow> (\<forall>n. status (partOf n i) = Splitting))
            \<and> (item_id i \<in> item_id ` set rest \<longrightarrow> (\<forall>n. status (partOf n i) = Idle))))"

definition invariant :: "App \<Rightarrow> bool" where
  "invariant s =
     (distinct (map item_id (items s))
      \<and> tasks_ok (pending s)
      \<and> (\<forall>i\<in>set (items s). item_ok (pending s) i)
      \<and> (\<not> isProcessing s \<longrightarrow> splitTasks (pending s) = [])
      \<and> history s \<noteq> [] \<and> hd (history s) = items s)"

text \<open>A sequence of events from a state: where it leads, and whether each event can happen.\<close>

fun run :: "event list \<Rightarrow> App \<Rightarrow> App" where
  "run [] s = s"
| "run (e # es) s = run es (fire e s)"

fun feasible :: "event list \<Rightarrow> App \<Rightarrow> bool" where
  "feasible [] s = True"
| "feasible (e # es) s = (enabled e s \<and> feasible es (fire e s))"

text \<open>
  The order of the specification: a status changes strictly forward in the order
  \<open>Idle\<close>, \<open>Splitting\<close>, \<open>Expanding\<close>, then \<open>Done\<close> or \<open>Error\<close>, or from
  \<open>Error\<close> back to \<open>Expanding\<close>.
\<close>

fun stage :: "ProcessStatus \<Rightarrow> nat" where
  "stage Idle = 0"
| "stage Splitting = 1"
| "stage Expanding = 2"
| "stage Done = 3"
| "stage Error = 3"

definition specOrder :: "ProcessStatus \<Rightarrow> ProcessStatus \<Rightarrow> bool" where
  "specOrder a b = (stage a < stage b \<or> a = Error \<and> b = Expanding)"

text \<open>
  A sample session: the key is saved, one file is uploaded, the batch is started, the
  split succeeds, the first expansion fails on the network and the second succeeds, and
  the first half is retried.
\<close>

definition demoSession :: "event list" where
  "demoSession =
     [Save (demoSettings ''key''),
      Upload (\<lambda>f. Some ''data:image/png;base64,AAAA'') (\<lambda>k. ''u'') [demoFile],
      Start,
      SplitSettled (demoItem ''u'' (demoPart None Idle) (demoPart None Idle)) [] Horizontal
        (demoSettings ''key'') (Inr (''data:,L'', ''data:,R'')),
      ExpandSettled ''u'' One (expandImageWithGemini_request ''data:,L'' (demoSettings ''key''))
        (Inl (NetworkError ''503'')),
      ExpandSettled ''u'' Two (expandImageWithGemini_request ''data:,R'' (demoSettings ''key''))
        (Inr (demoResponse [[demoImagePart ''QUJD'']])),
      Retry ''u'' One]"


section \<open>Properties\<close>

subsection \<open>Basic facts about the updaters\<close>

lemma partOf_withPart_sibling [simp]:
  "partOf (sibling n) (withPart n f item) = partOf (sibling n) item"
  by (cases n) (simp_all add: partOf_def withPart_def sibling_def)

lemma partOf_withPart_same [simp]: "partOf n (withPart n f item) = f (partOf n item)"
  by (cases n) (simp_all add: partOf_def withPart_def)

lemma withPart_fields [simp]:
  "item_id (withPart n f item) = item_id item"
  "originalUrl (withPart n f item) = originalUrl item"
  "itemFile (withPart n f item) = itemFile item"
  by (cases n; simp add: withPart_def)+

lemma items_setItems [simp]: "items (setItems f s) = f (items s)"
  by (simp add: setItems_def)

lemma setItems_fields [simp]:
  "requests (setItems f s) = requests s"
  "pending (setItems f s) = pending s"
  "splitCalls (setItems f s) = splitCalls s"
  "console (setItems f s) = console s"
  "settings (setItems f s) = settings s"
  "isProcessing (setItems f s) = isProcessing s"
  "showSettings (setItems f s) = showSettings s"
  "splitDirection (setItems f s) = splitDirection s"
  "storage (setItems f s) = storage s"
  "history (setItems f s) = f (items s) # history s"
  by (simp_all add: setItems_def)

lemma items_processImagePart [simp]:
  "items (processImagePart itemId n c cfg s) = markExpanding itemId n (items s)"
  by (simp add: processImagePart_def Let_def)

lemma items_processImagePart_resume:
  "items (processImagePart_resume itemId n call settled s) =
     (case call of
        Inl e \<Rightarrow> markError itemId n (items s)
      | Inr rq \<Rightarrow>
          (case expandImageWithGemini_response settled of
             Inl e \<Rightarrow> markError itemId n (items s)
           | Inr x \<Rightarrow> markDone itemId n x (items s)))"
  by (simp add: processImagePart_resume_def split: sum.splits)

lemma mark_sibling [simp]:
  "map (partOf (sibling n)) (markExpanding itemId n xs) = map (partOf (sibling n)) xs"
  "map (partOf (sibling n)) (markError itemId n xs) = map (partOf (sibling n)) xs"
  "map (partOf (sibling n)) (markDone itemId n x xs) = map (partOf (sibling n)) xs"
  by (simp_all add: markExpanding_def markError_def markDone_def)

lemma mark_others [simp]:
  "filter (\<lambda>i. item_id i \<noteq> itemId) (markExpanding itemId n xs) = filter (\<lambda>i. item_id i \<noteq> itemId) xs"
  "filter (\<lambda>i. item_id i \<noteq> itemId) (markError itemId n xs) = filter (\<lambda>i. item_id i \<noteq> itemId) xs"
  "filter (\<lambda>i. item_id i \<noteq> itemId) (markDone itemId n x xs) = filter (\<lambda>i. item_id i \<noteq> itemId) xs"
  by (induction xs) (simp_all add: markExpanding_def markError_def markDone_def)

lemma mark_url [simp]:
  "map (\<lambda>i. url (partOf m i)) (markExpanding itemId n xs) = map (\<lambda>i. url (partOf m i)) xs"
  "map (\<lambda>i. url (partOf m i)) (markError itemId n xs) = map (\<lambda>i. url (partOf m i)) xs"
  "map (\<lambda>i. url (partOf m i)) (markDone itemId n x xs) = map (\<lambda>i. url (partOf m i)) xs"
  by (cases m; cases n; simp add: markExpanding_def markError_def markDone_def partOf_def withPart_def)+

lemma markError_expanded [simp]:
  "map (\<lambda>i. expandedUrl (partOf m i)) (markError itemId n xs) = map (\<lambda>i. expandedUrl (partOf m i)) xs"
  by (cases m; cases n; simp add: markError_def partOf_def withPart_def)

subsection \<open>The splitter\<close>

text \<open>
  C1, as the code has it: when the image loads and the canvas has a context, both parts
  of a horizontal split have width \<open>W div 2\<close> and height \<open>H\<close>, the first holds the
  columns from \<open>0\<close> and the second the columns from \<open>W div 2\<close>; both parts of a
  vertical split have width \<open>W\<close> and height \<open>H div 2\<close>, the first holds the rows from
  \<open>0\<close> and the second the rows from \<open>H div 2\<close>. One canvas size serves both parts.
\<close>

theorem splitImage_halves:
  assumes "loadImage imageSrc = Some img"
  shows "(\<exists>p1 p2. splitImage loadImage True enc imageSrc Horizontal = Inr (enc p1, enc p2)
           \<and> width p1 = width img div 2 \<and> height p1 = height img
           \<and> width p2 = width img div 2 \<and> height p2 = height img
           \<and> (\<forall>x y. x < width img div 2 \<and> y < height img \<longrightarrow>
                 pixel p1 x y = pixel img x y \<and> pixel p2 x y = pixel img (width img div 2 + x) y))
       \<and> (\<exists>p1 p2. splitImage loadImage True enc imageSrc Vertical = Inr (enc p1, enc p2)
           \<and> width p1 = width img \<and> height p1 = height img div 2
           \<and> width p2 = width img \<and> height p2 = height img div 2
           \<and> (\<forall>x y. x < width img \<and> y < height img div 2 \<longrightarrow>
                 pixel p1 x y = pixel img x y \<and> pixel p2 x y = pixel img x (height img div 2 + y)))"
proof (intro conjI)
  show "\<exists>p1 p2. splitImage loadImage True enc imageSrc Horizontal = Inr (enc p1, enc p2)
           \<and> width p1 = width img div 2 \<and> height p1 = height img
           \<and> width p2 = width img div 2 \<and> height p2 = height img
           \<and> (\<forall>x y. x < width img div 2 \<and> y < height img \<longrightarrow>
                 pixel p1 x y = pixel img x y \<and> pixel p2 x y = pixel img (width img div 2 + x) y)"
    using assms
    by (auto simp: splitImage_def Let_def toDataURL_def snapshot_def drawImage_def clearRect_def
        setWidth_def setHeight_def createCanvas_def split: option.splits intro!: exI)
  show "\<exists>p1 p2. splitImage loadImage True enc imageSrc Vertical = Inr (enc p1, enc p2)
           \<and> width p1 = width img \<and> height p1 = height img div 2
           \<and> width p2 = width img \<and> height p2 = height img div 2
           \<and> (\<forall>x y. x < width img \<and> y < height img div 2 \<longrightarrow>
                 pixel p1 x y = pixel img x y \<and> pixel p2 x y = pixel img x (height img div 2 + y))"
    using assms
    by (auto simp: splitImage_def Let_def toDataURL_def snapshot_def drawImage_def clearRect_def
        setWidth_def setHeight_def createCanvas_def split: option.splits intro!: exI)
qed

text \<open>The theorem on the 5 by 3 sample image, with the identity as encoder.\<close>

theorem splitImage_halves_witness:
  "(\<exists>p1 p2. splitImage (\<lambda>src. Some demoImage) True (\<lambda>p. p) ''demo'' Horizontal = Inr (p1, p2)
      \<and> width p1 = 2 \<and> height p1 = 3 \<and> width p2 = 2 \<and> height p2 = 3
      \<and> (\<forall>x y. x < 2 \<and> y < 3 \<longrightarrow>
            pixel p1 x y = pixel demoImage x y \<and> pixel p2 x y = pixel demoImage (2 + x) y))
   \<and> (\<exists>p1 p2. splitImage (\<lambda>src. Some demoImage) True (\<lambda>p. p) ''demo'' Vertical = Inr (p1, p2)
      \<and> width p1 = 5 \<and> height p1 = 1 \<and> width p2 = 5 \<and> height p2 = 1
      \<and> (\<forall>x y. x < 5 \<and> y < 1 \<longrightarrow>
            pixel p1 x y = pixel demoImage x y \<and> pixel p2 x y = pixel demoImage x (1 + y)))"
proof -
  have d: "width demoImage = 5" "height demoImage = 3"
    by (simp_all add: demoImage_def)
  show ?thesis
    using splitImage_halves [of "\<lambda>src. Some demoImage" "''demo''" demoImage "\<lambda>p. p"]
    by (simp add: d)
qed

text \<open>
  C1 as the specification words it asks for a second part of width \<open>W - W div 2\<close>. On
  the sample image of width 5 the second part has width 2, and \<open>5 - 5 div 2\<close> is 3.
\<close>

theorem splitImage_second_width_counterexample:
  "map_sum (\<lambda>e. e) (\<lambda>(p1, p2). (width p1, height p1, width p2, height p2))
     (splitImage (\<lambda>src. Some demoImage) True (\<lambda>p. p) ''demo'' Horizontal) = Inr (2, 3, 2, 3)
   \<and> width demoImage - width demoImage div 2 = 3"
  by (simp add: splitImage_def Let_def toDataURL_def snapshot_def drawImage_def clearRect_def
      setWidth_def setHeight_def createCanvas_def demoImage_def)

subsection \<open>The expander client\<close>

lemma scanParts_payloads:
  "scanParts ps = (case List.map_filter partPayload ps of [] \<Rightarrow> None | d # _ \<Rightarrow> Some d)"
  by (induction ps)
    (auto simp: partPayload_def truthy_def split: option.splits list.splits)

lemma response_payloads:
  "expandImageWithGemini_response (Inr r) =
     (case firstCandidatePayloads r of
        [] \<Rightarrow> Inl NoImageData
      | d # _ \<Rightarrow> Inr (''data:image/png;base64,'' @ d))"
  by (auto simp: expandImageWithGemini_response_def firstCandidateParts_def
      firstCandidatePayloads_def candidatePayloads_def scanParts_payloads
      split: option.splits list.splits)

text \<open>
  C5, as the code has it: the expander fails exactly when the key is empty, when the
  network call fails, or when the first candidate of the response has no part with inline
  data that is not empty; a network error is passed on as it is. Otherwise it returns the
  first such payload of the first candidate as a PNG data URL. With an empty key it sends
  nothing; with a key it sends exactly one request, carrying the crop without its data URL
  header.
\<close>

theorem expandImageWithGemini_outcome:
  "(isl (fst (expandImageWithGemini net img cfg)) \<longleftrightarrow>
      apiKey cfg = []
      \<or> (\<exists>rq e. expandImageWithGemini_request img cfg = Inr rq \<and> net rq = Inl e)
      \<or> (\<exists>rq r. expandImageWithGemini_request img cfg = Inr rq \<and> net rq = Inr r
            \<and> firstCandidatePayloads r = []))
   \<and> (\<forall>rq r. expandImageWithGemini_request img cfg = Inr rq \<and> net rq = Inr r
         \<and> firstCandidatePayloads r \<noteq> [] \<longrightarrow>
         fst (expandImageWithGemini net img cfg)
           = Inr (''data:image/png;base64,'' @ hd (firstCandidatePayloads r)))
   \<and> (\<forall>rq e. expandImageWithGemini_request img cfg = Inr rq \<and> net rq = Inl e \<longrightarrow>
         fst (expandImageWithGemini net img cfg) = Inl e)
   \<and> (apiKey cfg = [] \<longrightarrow> expandImageWithGemini net img cfg = (Inl MissingKey, [], []))
   \<and> (apiKey cfg \<noteq> [] \<longrightarrow>
         (\<exists>rq. expandImageWithGemini_request img cfg = Inr rq
            \<and> inlineBase64 rq = cleanBase64 img
            \<and> fst (snd (expandImageWithGemini net img cfg)) = [rq]))"
proof (cases "apiKey cfg = []")
  case True
  then show ?thesis
    by (simp add: expandImageWithGemini_def expandImageWithGemini_request_def)
next
  case False
  then obtain rq where
    rq: "expandImageWithGemini_request img cfg = Inr rq" "inlineBase64 rq = cleanBase64 img"
    by (simp add: expandImageWithGemini_request_def)
  show ?thesis
  proof (cases "net rq")
    case (Inl e)
    with False rq show ?thesis
      by (simp add: expandImageWithGemini_def expandImageWithGemini_response_def)
  next
    case (Inr r)
    with False rq show ?thesis
      by (cases "firstCandidatePayloads r")
        (simp_all add: expandImageWithGemini_def response_payloads)
  qed
qed

text \<open>
  The theorem run on four calls: a response whose first candidate has a text part and two
  image parts, a network error, a response with text only, and an empty key.
\<close>

theorem expandImageWithGemini_outcome_witness:
  "fst (expandImageWithGemini
      (\<lambda>rq. Inr (demoResponse [[demoTextPart, demoImagePart ''QUJD'', demoImagePart ''REVG'']]))
      ''data:image/png;base64,AAAA'' (demoSettings ''key'')) = Inr ''data:image/png;base64,QUJD''
   \<and> isl (fst (expandImageWithGemini (\<lambda>rq. Inl (NetworkError ''503''))
      ''data:image/png;base64,AAAA'' (demoSettings ''key'')))
   \<and> isl (fst (expandImageWithGemini (\<lambda>rq. Inr (demoResponse [[demoTextPart]]))
      ''data:image/png;base64,AAAA'' (demoSettings ''key'')))
   \<and> expandImageWithGemini (\<lambda>rq. Inr (demoResponse [[demoImagePart ''QUJD'']]))
      ''data:image/png;base64,AAAA'' (demoSettings []) = (Inl MissingKey, [], [])"
  using expandImageWithGemini_outcome [of
      "\<lambda>rq. Inr (demoResponse [[demoTextPart, demoImagePart ''QUJD'', demoImagePart ''REVG'']])"
      "''data:image/png;base64,AAAA''" "demoSettings ''key''"]
    expandImageWithGemini_outcome [of "\<lambda>rq. Inl (NetworkError ''503'')"
      "''data:image/png;base64,AAAA''" "demoSettings ''key''"]
    expandImageWithGemini_outcome [of "\<lambda>rq. Inr (demoResponse [[demoTextPart]])"
      "''data:image/png;base64,AAAA''" "demoSettings ''key''"]
    expandImageWithGemini_outcome [of "\<lambda>rq. Inr (demoResponse [[demoImagePart ''QUJD'']])"
      "''data:image/png;base64,AAAA''" "demoSettings []"]
  by (simp add: demoSettings_def demoResponse_def demoCandidate_def demoTextPart_def
      demoImagePart_def expandImageWithGemini_request_def firstCandidatePayloads_def
      candidatePayloads_def partPayload_def truthy_def)

text \<open>
  C5 as the specification words it makes the call succeed whenever the response holds an
  image payload. A response whose second candidate holds the only image payload is
  answered with the error, with a key and a network call that succeeded.
\<close>

theorem expandImageWithGemini_second_candidate_counterexample:
  "apiKey (demoSettings ''key'') \<noteq> []
   \<and> responsePayloads (demoResponse [[demoTextPart], [demoImagePart ''QUJD'']]) = [''QUJD'']
   \<and> expandImageWithGemini (\<lambda>rq. Inr (demoResponse [[demoTextPart], [demoImagePart ''QUJD'']]))
        ''data:image/png;base64,AAAA'' (demoSettings ''key'')
      = (Inl NoImageData,
         [\<lparr>clientApiKey = ''key'', clientBaseUrl = None, model = ''gemini-2.5-flash-image'',
           promptText = expansionPrompt, inlineMimeType = ''image/png'', inlineBase64 = ''AAAA'',
           aspectRatio = ''3:4''\<rparr>],
         [NoImageData])"
  by (simp add: demoSettings_def demoResponse_def demoCandidate_def demoTextPart_def
      demoImagePart_def expandImageWithGemini_def expandImageWithGemini_request_def
      expandImageWithGemini_response_def firstCandidateParts_def responsePayloads_def
      candidatePayloads_def DEFAULT_MODEL_def partPayload_def truthy_def
      orElse_def cleanBase64_def)

subsection \<open>Batch start without a credential\<close>

text \<open>
  C3: with an empty key, \<open>startProcessing\<close> only opens the settings dialog: it sends no
  request, starts no task, calls no split and leaves the items alone; and the expander,
  were it called with these settings, would fail before sending anything, whatever the
  network would answer.
\<close>

theorem startProcessing_no_credential:
  assumes "apiKey (settings s) = []"
  shows "startProcessing s = s\<lparr>showSettings := True\<rparr>
         \<and> requests (startProcessing s) = requests s
         \<and> pending (startProcessing s) = pending s
         \<and> splitCalls (startProcessing s) = splitCalls s
         \<and> items (startProcessing s) = items s
         \<and> expandImageWithGemini generateContent croppedBase64 (settings s)
             = (Inl MissingKey, [], [])"
  using assms
  by (simp add: startProcessing_def expandImageWithGemini_def expandImageWithGemini_request_def)

theorem startProcessing_no_credential_witness:
  "apiKey (settings (demoApp [] [demoItem ''a'' (demoPart None Idle) (demoPart None Idle)])) = []
   \<and> requests (startProcessing (demoApp [] [demoItem ''a'' (demoPart None Idle) (demoPart None Idle)])) = []
   \<and> pending (startProcessing (demoApp [] [demoItem ''a'' (demoPart None Idle) (demoPart None Idle)])) = []
   \<and> splitCalls (startProcessing (demoApp [] [demoItem ''a'' (demoPart None Idle) (demoPart None Idle)])) = []
   \<and> items (startProcessing (demoApp [] [demoItem ''a'' (demoPart None Idle) (demoPart None Idle)]))
       = [demoItem ''a'' (demoPart None Idle) (demoPart None Idle)]
   \<and> showSettings (startProcessing (demoApp [] [demoItem ''a'' (demoPart None Idle) (demoPart None Idle)]))"
proof -
  have k: "apiKey (settings (demoApp [] [demoItem ''a'' (demoPart None Idle) (demoPart None Idle)])) = []"
    by (simp add: demoApp_def demoSettings_def)
  show ?thesis
    using k startProcessing_no_credential [OF k]
    by (simp add: demoApp_def)
qed

subsection \<open>Independence of the two halves\<close>

text \<open>
  C4: the start of an expansion and its end, failed or not, leave the sibling half of
  every item as it was, leave every item with another identifier as it was, and keep the
  crop of every half. When the expansion fails (the expander threw before sending, or the
  settled call gives an error) the update is \<open>markError\<close>, which changes nothing but
  the status of the half: the expanded image of every half stays too.
\<close>

theorem expansion_frame:
  "map (partOf (sibling n)) (items (processImagePart itemId n croppedBase64 cfg s))
     = map (partOf (sibling n)) (items s)
   \<and> map (partOf (sibling n)) (items (processImagePart_resume itemId n call settled s))
     = map (partOf (sibling n)) (items s)
   \<and> filter (\<lambda>i. item_id i \<noteq> itemId) (items (processImagePart itemId n croppedBase64 cfg s))
     = filter (\<lambda>i. item_id i \<noteq> itemId) (items s)
   \<and> filter (\<lambda>i. item_id i \<noteq> itemId) (items (processImagePart_resume itemId n call settled s))
     = filter (\<lambda>i. item_id i \<noteq> itemId) (items s)
   \<and> map (\<lambda>i. url (partOf m i)) (items (processImagePart_resume itemId n call settled s))
     = map (\<lambda>i. url (partOf m i)) (items s)
   \<and> ((\<exists>e. call = Inl e \<or> expandImageWithGemini_response settled = Inl e) \<longrightarrow>
        items (processImagePart_resume itemId n call settled s) = markError itemId n (items s)
        \<and> map (\<lambda>i. expandedUrl (partOf m i)) (items (processImagePart_resume itemId n call settled s))
          = map (\<lambda>i. expandedUrl (partOf m i)) (items s))"
  by (auto simp: items_processImagePart_resume split: sum.splits)

subsection \<open>Removing an item\<close>

text \<open>
  C6: \<open>removeItem\<close> keeps, in their order, the items whose identifier differs from the
  given one. For an identifier that no item has, the list is unchanged (the state differs
  only by the entry that the call adds to \<open>history\<close>, the same list again). Removing twice
  is removing once. The items that go are exactly those with the identifier: one item,
  when identifiers are distinct.
\<close>

theorem removeItem_spec:
  "items (removeItem ident s) = filter (\<lambda>item. item_id item \<noteq> ident) (items s)
   \<and> (ident \<notin> item_id ` set (items s) \<longrightarrow>
        removeItem ident s = s\<lparr>history := items s # history s\<rparr>
        \<and> items (removeItem ident s) = items s)
   \<and> items (removeItem ident (removeItem ident s)) = items (removeItem ident s)
   \<and> set (items (removeItem ident s)) = set (items s) - {i. item_id i = ident}
   \<and> (distinct (map item_id (items s)) \<and> ident \<in> item_id ` set (items s) \<longrightarrow>
        Suc (length (items (removeItem ident s))) = length (items s))"
proof -
  have missing: "filter (\<lambda>item. item_id item \<noteq> ident) xs = xs"
    if "ident \<notin> item_id ` set xs" for xs :: "ProcessedImage list"
    using that by (induction xs) auto
  have one: "Suc (length (filter (\<lambda>item. item_id item \<noteq> ident) xs)) = length xs"
    if "distinct (map item_id xs)" "ident \<in> item_id ` set xs" for xs :: "ProcessedImage list"
    using that
  proof (induction xs)
    case Nil
    then show ?case by simp
  next
    case (Cons a xs)
    show ?case
    proof (cases "item_id a = ident")
      case True
      with Cons.prems have "ident \<notin> item_id ` set xs" by auto
      with True show ?thesis by (simp add: missing)
    next
      case False
      with Cons show ?thesis by auto
    qed
  qed
  show ?thesis
    by (auto simp: removeItem_def setItems_def missing one)
qed

text \<open>The theorems on C4 and C6 run on sample states.\<close>

theorem expansion_frame_witness:
  "expandImageWithGemini_response (Inl (NetworkError ''503'')) = Inl (NetworkError ''503'')
   \<and> items (processImagePart_resume ''a'' One (Inr demoRequest) (Inl (NetworkError ''503''))
        (demoApp ''key'' [demoItem ''a'' (demoPart (Some ''c1'') Expanding) (demoPart (Some ''c2'') Expanding)]))
      = [demoItem ''a'' (demoPart (Some ''c1'') Error) (demoPart (Some ''c2'') Expanding)]"
  using expansion_frame [where n = One and itemId = "''a''" and call = "Inr demoRequest"
      and settled = "Inl (NetworkError ''503'')" and m = One and s = "demoApp ''key''
        [demoItem ''a'' (demoPart (Some ''c1'') Expanding) (demoPart (Some ''c2'') Expanding)]"]
  by (simp add: expandImageWithGemini_response_def demoApp_def demoItem_def demoPart_def
      markError_def withPart_def)

theorem removeItem_spec_witness:
  "''b'' \<notin> item_id ` set (items (demoApp ''key'' [demoItem ''a'' (demoPart None Idle) (demoPart None Idle)]))
   \<and> items (removeItem ''b'' (demoApp ''key'' [demoItem ''a'' (demoPart None Idle) (demoPart None Idle)]))
      = [demoItem ''a'' (demoPart None Idle) (demoPart None Idle)]
   \<and> distinct (map item_id (items (demoApp ''key'' [demoItem ''a'' (demoPart None Idle) (demoPart None Idle)])))
   \<and> ''a'' \<in> item_id ` set (items (demoApp ''key'' [demoItem ''a'' (demoPart None Idle) (demoPart None Idle)]))
   \<and> items (removeItem ''a'' (demoApp ''key'' [demoItem ''a'' (demoPart None Idle) (demoPart None Idle)])) = []"
  using removeItem_spec [of "''b''" "demoApp ''key'' [demoItem ''a'' (demoPart None Idle) (demoPart None Idle)]"]
    removeItem_spec [of "''a''" "demoApp ''key'' [demoItem ''a'' (demoPart None Idle) (demoPart None Idle)]"]
  by (simp add: demoApp_def demoItem_def)

subsection \<open>Retrying a half\<close>

lemma find_markExpanding:
  "find (\<lambda>i. item_id i = ident) xs = Some item \<Longrightarrow>
   find (\<lambda>i. item_id i = ident) (markExpanding ident n xs)
     = Some (withPart n (\<lambda>p. p\<lparr>status := Expanding\<rparr>) item)"
  by (induction xs) (auto simp: markExpanding_def)

lemma find_None_ids: "find (\<lambda>i. item_id i = ident) xs = None \<longleftrightarrow> ident \<notin> item_id ` set xs"
  by (induction xs) auto

lemma retryPart_cases:
  "retryPart ident n s =
     (if apiKey (settings s) = [] then s\<lparr>showSettings := True\<rparr>
      else case find (\<lambda>i. item_id i = ident) (items s) of
             None \<Rightarrow> s
           | Some item \<Rightarrow>
               (case url (partOf n item) of
                  None \<Rightarrow> s
                | Some u \<Rightarrow> if u \<noteq> [] then processImagePart ident n u (settings s) s else s))"
  by (cases n) (simp_all add: retryPart_def partOf_def Let_def split: option.splits)

lemma processImagePart_fields [simp]:
  "splitCalls (processImagePart itemId n c cfg s) = splitCalls s"
  "console (processImagePart itemId n c cfg s) = console s"
  "settings (processImagePart itemId n c cfg s) = settings s"
  "isProcessing (processImagePart itemId n c cfg s) = isProcessing s"
  "showSettings (processImagePart itemId n c cfg s) = showSettings s"
  "history (processImagePart itemId n c cfg s) = markExpanding itemId n (items s) # history s"
  "pending (processImagePart itemId n c cfg s)
     = pending s @ [AwaitExpand itemId n (expandImageWithGemini_request c cfg)]"
  "requests (processImagePart itemId n c cfg s)
     = requests s @ (case expandImageWithGemini_request c cfg of Inl e \<Rightarrow> [] | Inr rq \<Rightarrow> [rq])"
  by (simp_all add: processImagePart_def Let_def)


text \<open>
  C10, as the code has it: for an identifier that no item has, or a half whose crop is
  null, \<open>retryPart\<close> changes nothing when a key is configured, and only opens the
  settings dialog when the key is empty. It does not look at the status: with a key, any
  half of a found item that has a crop stored, whatever its status, is marked as
  expanding, and one request is sent and one task started.
\<close>

theorem retryPart_noop:
  "((ident \<notin> item_id ` set (items s)
      \<or> (\<exists>item. find (\<lambda>i. item_id i = ident) (items s) = Some item \<and> url (partOf n item) = None))
     \<longrightarrow> retryPart ident n s = (if apiKey (settings s) = [] then s\<lparr>showSettings := True\<rparr> else s))
   \<and> (\<forall>item u. apiKey (settings s) \<noteq> [] \<and> find (\<lambda>i. item_id i = ident) (items s) = Some item
         \<and> url (partOf n item) = Some u \<and> u \<noteq> [] \<longrightarrow>
         find (\<lambda>i. item_id i = ident) (items (retryPart ident n s))
           = Some (withPart n (\<lambda>p. p\<lparr>status := Expanding\<rparr>) item)
         \<and> length (requests (retryPart ident n s)) = Suc (length (requests s))
         \<and> length (pending (retryPart ident n s)) = Suc (length (pending s)))"
  by (auto simp: retryPart_cases find_None_ids[symmetric] find_markExpanding
      expandImageWithGemini_request_def split: option.splits)


theorem retryPart_noop_witness:
  "''zz'' \<notin> item_id ` set (items (demoApp ''key''
      [demoItem ''a'' (demoPart None Splitting) (demoPart (Some ''x,BBBB'') Done)]))
   \<and> retryPart ''zz'' Two (demoApp ''key''
        [demoItem ''a'' (demoPart None Splitting) (demoPart (Some ''x,BBBB'') Done)])
      = demoApp ''key'' [demoItem ''a'' (demoPart None Splitting) (demoPart (Some ''x,BBBB'') Done)]
   \<and> retryPart ''a'' One (demoApp ''key''
        [demoItem ''a'' (demoPart None Splitting) (demoPart (Some ''x,BBBB'') Done)])
      = demoApp ''key'' [demoItem ''a'' (demoPart None Splitting) (demoPart (Some ''x,BBBB'') Done)]
   \<and> map (\<lambda>i. status (splitPart2 i)) (items (retryPart ''a'' Two (demoApp ''key''
        [demoItem ''a'' (demoPart None Splitting) (demoPart (Some ''x,BBBB'') Done)])))
      = [Expanding]
   \<and> length (requests (retryPart ''a'' Two (demoApp ''key''
        [demoItem ''a'' (demoPart None Splitting) (demoPart (Some ''x,BBBB'') Done)]))) = 1"
proof -
  let ?s = "demoApp ''key'' [demoItem ''a'' (demoPart None Splitting) (demoPart (Some ''x,BBBB'') Done)]"
  have a: "items ?s = [demoItem ''a'' (demoPart None Splitting) (demoPart (Some ''x,BBBB'') Done)]"
    "apiKey (settings ?s) = ''key''" "requests ?s = []"
    by (simp_all add: demoApp_def demoSettings_def)
  have b: "item_id (demoItem ''a'' p q) = ''a''" "splitPart1 (demoItem ''a'' p q) = p"
    "splitPart2 (demoItem ''a'' p q) = q" for p q
    by (simp_all add: demoItem_def)
  have c: "url (demoPart u st) = u" "status (demoPart u st) = st" for u st
    by (simp_all add: demoPart_def)
  have f: "find (\<lambda>i. item_id i = ''a'') (items (retryPart ''a'' Two ?s)) = Some i \<Longrightarrow>
      map (\<lambda>i. status (splitPart2 i)) (items (retryPart ''a'' Two ?s)) = [status (splitPart2 i)]" for i
    by (simp add: retryPart_cases a b c partOf_def markExpanding_def withPart_def)
  show ?thesis
    using retryPart_noop [of "''zz''" ?s Two] retryPart_noop [of "''a''" ?s One]
      retryPart_noop [of "''a''" ?s Two] f
    by (simp add: a b c partOf_def withPart_def)
qed

text \<open>
  C10 as the specification words it makes the retry of a missing item a complete no-op.
  With an empty key and the dialog closed, it opens the dialog.
\<close>

theorem retryPart_no_key_counterexample:
  "''zz'' \<notin> item_id ` set (items (demoApp [] []))
   \<and> \<not> showSettings (demoApp [] [])
   \<and> showSettings (retryPart ''zz'' One (demoApp [] []))
   \<and> retryPart ''zz'' One (demoApp [] []) \<noteq> demoApp [] []"
proof -
  have "showSettings (retryPart ''zz'' One (demoApp [] []))"
    by (simp add: retryPart_def demoApp_def demoSettings_def)
  moreover have "\<not> showSettings (demoApp [] [])" "items (demoApp [] []) = []"
    by (simp_all add: demoApp_def)
  ultimately show ?thesis by auto
qed

subsection \<open>A split that fails\<close>

text \<open>
  C8: when \<open>splitImage\<close> fails for an item, \<open>startProcessing\<close> logs the error and
  goes on to the next item: no request is sent, no expansion task is started (the only new
  task is the split of the next item), the only update of the items marks the next item as
  splitting, so an item whose identifier differs from those still to do keeps its record,
  and no half gets the status \<open>Error\<close> that did not have it.
\<close>

theorem split_failure_local:
  "requests (startProcessing_resume item rest dir cfg (Inl e) s) = requests s
   \<and> console (startProcessing_resume item rest dir cfg (Inl e) s) = console s @ [''Splitting error'']
   \<and> pending (startProcessing_resume item rest dir cfg (Inl e) s)
       = pending s @ (case rest of [] \<Rightarrow> [] | nxt # later \<Rightarrow> [AwaitSplit nxt later dir cfg])
   \<and> items (startProcessing_resume item rest dir cfg (Inl e) s)
       = (case rest of [] \<Rightarrow> items s | nxt # later \<Rightarrow> markSplitting (item_id nxt) (items s))
   \<and> (item_id item \<notin> item_id ` set rest \<longrightarrow>
        filter (\<lambda>i. item_id i = item_id item) (items (startProcessing_resume item rest dir cfg (Inl e) s))
          = filter (\<lambda>i. item_id i = item_id item) (items s))
   \<and> (\<forall>i\<in>set (items (startProcessing_resume item rest dir cfg (Inl e) s)).
        status (splitPart1 i) = Error \<or> status (splitPart2 i) = Error \<longrightarrow> i \<in> set (items s))"
proof (cases rest)
  case Nil
  then show ?thesis by (simp add: startProcessing_resume_def)
next
  case (Cons nxt later)
  have keep: "filter (\<lambda>i. item_id i = k) (markSplitting (item_id nxt) xs) = filter (\<lambda>i. item_id i = k) xs"
    if "k \<noteq> item_id nxt" for k xs
    using that by (induction xs) (auto simp: markSplitting_def)
  have err: "i \<in> set xs"
    if "i \<in> set (markSplitting k xs)" "status (splitPart1 i) = Error \<or> status (splitPart2 i) = Error"
    for i k xs
    using that by (auto simp: markSplitting_def split: if_splits)
  have its: "items (startProcessing_resume item rest dir cfg (Inl e) s) = markSplitting (item_id nxt) (items s)"
    using Cons by (simp add: startProcessing_resume_def Let_def)
  from Cons show ?thesis
    unfolding its
    by (auto simp: startProcessing_resume_def Let_def keep dest: err)
qed

text \<open>
  The theorem run: a batch start on one idle item, then the failure of its split. The item
  stays as the start left it, with both halves splitting.
\<close>

theorem split_failure_local_witness:
  "item_id (demoItem ''a'' (demoPart None Idle) (demoPart None Idle)) \<notin> item_id ` set []
   \<and> items (startProcessing (demoApp ''key'' [demoItem ''a'' (demoPart None Idle) (demoPart None Idle)]))
      = [demoItem ''a'' (demoPart None Splitting) (demoPart None Splitting)]
   \<and> items (startProcessing_resume (demoItem ''a'' (demoPart None Idle) (demoPart None Idle)) []
        Horizontal (demoSettings ''key'') (Inl LoadFailed)
        (startProcessing (demoApp ''key'' [demoItem ''a'' (demoPart None Idle) (demoPart None Idle)])))
      = [demoItem ''a'' (demoPart None Splitting) (demoPart None Splitting)]
   \<and> requests (startProcessing_resume (demoItem ''a'' (demoPart None Idle) (demoPart None Idle)) []
        Horizontal (demoSettings ''key'') (Inl LoadFailed)
        (startProcessing (demoApp ''key'' [demoItem ''a'' (demoPart None Idle) (demoPart None Idle)])))
      = []
   \<and> console (startProcessing_resume (demoItem ''a'' (demoPart None Idle) (demoPart None Idle)) []
        Horizontal (demoSettings ''key'') (Inl LoadFailed)
        (startProcessing (demoApp ''key'' [demoItem ''a'' (demoPart None Idle) (demoPart None Idle)])))
      = [''Splitting error'']"
proof -
  have s1: "items (startProcessing (demoApp ''key'' [demoItem ''a'' (demoPart None Idle) (demoPart None Idle)]))
      = [demoItem ''a'' (demoPart None Splitting) (demoPart None Splitting)]"
    by (simp add: startProcessing_def demoApp_def demoSettings_def demoItem_def demoPart_def
        Let_def markSplitting_def)
  have s2: "requests (startProcessing (demoApp ''key'' [demoItem ''a'' (demoPart None Idle) (demoPart None Idle)])) = []"
    "console (startProcessing (demoApp ''key'' [demoItem ''a'' (demoPart None Idle) (demoPart None Idle)])) = []"
    by (simp_all add: startProcessing_def demoApp_def demoSettings_def Let_def)
  note t = split_failure_local [of "demoItem ''a'' (demoPart None Idle) (demoPart None Idle)" "[]"
      Horizontal "demoSettings ''key''" LoadFailed
      "startProcessing (demoApp ''key'' [demoItem ''a'' (demoPart None Idle) (demoPart None Idle)])"]
  show ?thesis
    using t [THEN conjunct1] t [THEN conjunct2, THEN conjunct1]
      t [THEN conjunct2, THEN conjunct2, THEN conjunct2, THEN conjunct1]
    by (simp add: s1 s2)
qed

subsection \<open>Uploads\<close>

lemma handleFilesAdded_loop_items:
  "handleFilesAdded_loop rd uuid files acc = Inr xs \<Longrightarrow>
   \<exists>new. xs = acc @ new \<and> map itemFile new = files
     \<and> (\<forall>i\<in>set new. splitPart1 i = \<lparr>url = None, expandedUrl = None, status = Idle\<rparr>
                      \<and> splitPart2 i = \<lparr>url = None, expandedUrl = None, status = Idle\<rparr>)"
proof (induction files arbitrary: acc)
  case Nil
  then show ?case by simp
next
  case (Cons f files)
  from Cons.prems obtain original where
    rec: "handleFilesAdded_loop rd uuid files
            (acc @ [\<lparr>item_id = uuid (length acc), originalUrl = original, itemFile = f,
                     splitPart1 = \<lparr>url = None, expandedUrl = None, status = Idle\<rparr>,
                     splitPart2 = \<lparr>url = None, expandedUrl = None, status = Idle\<rparr>\<rparr>]) = Inr xs"
    by (auto split: option.splits)
  from Cons.IH [OF rec] obtain new where
    new: "xs = (acc @ [\<lparr>item_id = uuid (length acc), originalUrl = original, itemFile = f,
                     splitPart1 = \<lparr>url = None, expandedUrl = None, status = Idle\<rparr>,
                     splitPart2 = \<lparr>url = None, expandedUrl = None, status = Idle\<rparr>\<rparr>]) @ new"
      "map itemFile new = files"
      "\<forall>i\<in>set new. splitPart1 i = \<lparr>url = None, expandedUrl = None, status = Idle\<rparr>
                      \<and> splitPart2 i = \<lparr>url = None, expandedUrl = None, status = Idle\<rparr>"
    by blast
  show ?case
    by (rule exI [of _ "\<lparr>item_id = uuid (length acc), originalUrl = original, itemFile = f,
                     splitPart1 = \<lparr>url = None, expandedUrl = None, status = Idle\<rparr>,
                     splitPart2 = \<lparr>url = None, expandedUrl = None, status = Idle\<rparr>\<rparr> # new"])
      (use new in simp)
qed

lemma handleFilesAdded_loop_total:
  "(\<forall>f\<in>set files. rd f \<noteq> None) \<Longrightarrow> \<exists>xs. handleFilesAdded_loop rd uuid files acc = Inr xs"
  by (induction files arbitrary: acc) (auto split: option.splits)

lemma handleFilesAdded_items:
  "\<exists>new. items (handleFilesAdded rd uuid files s) = new @ items s
     \<and> (new = [] \<or> map itemFile new = files)
     \<and> ((\<forall>f\<in>set files. rd f \<noteq> None) \<longrightarrow> map itemFile new = files)
     \<and> (\<forall>i\<in>set new. splitPart1 i = \<lparr>url = None, expandedUrl = None, status = Idle\<rparr>
                      \<and> splitPart2 i = \<lparr>url = None, expandedUrl = None, status = Idle\<rparr>)"
proof (cases "handleFilesAdded_loop rd uuid files []")
  case (Inl e)
  have "\<not> (\<forall>f\<in>set files. rd f \<noteq> None)"
  proof
    assume "\<forall>f\<in>set files. rd f \<noteq> None"
    from handleFilesAdded_loop_total [OF this, of uuid "[]"] Inl show False by simp
  qed
  with Inl show ?thesis by (auto simp: handleFilesAdded_def)
next
  case (Inr xs)
  from handleFilesAdded_loop_items [OF Inr] show ?thesis
    using Inr by (auto simp: handleFilesAdded_def)
qed

lemma traverseFileTree_scan:
  "traverseFileTree e = filter (\<lambda>f. startsWith ''image/'' (ftype f)) (scannedFiles e)"
proof (induction e rule: traverseFileTree.induct)
  case (1 f)
  show ?case by simp
next
  case (2 name reader)
  show ?case
  proof (cases "readAllEntries reader []")
    case (Inl e)
    then show ?thesis by simp
  next
    case (Inr entries)
    have "map traverseFileTree entries
        = map (\<lambda>x. filter (\<lambda>f. startsWith ''image/'' (ftype f)) (scannedFiles x)) entries"
      by (rule map_cong [OF refl]) (rule "2.IH" [OF Inr])
    then have c: "concat (map traverseFileTree entries)
        = concat (map (\<lambda>x. filter (\<lambda>f. startsWith ''image/'' (ftype f)) (scannedFiles x)) entries)"
      by (rule arg_cong)
    show ?thesis by (simp add: Inr c filter_concat o_def)
  qed
next
  case 3
  show ?case by simp
qed

lemma handleDrop_spec:
  "handleDrop dtItems dtFiles processing =
     (if processing \<or> filter (\<lambda>f. startsWith ''image/'' (ftype f)) (droppedFiles dtItems dtFiles) = []
      then None
      else Some (filter (\<lambda>f. startsWith ''image/'' (ftype f)) (droppedFiles dtItems dtFiles)))"
proof -
  have "concat (map (\<lambda>i. case i of None \<Rightarrow> [] | Some item \<Rightarrow> traverseFileTree item) its)
      = filter (\<lambda>f. startsWith ''image/'' (ftype f))
          (concat (map (\<lambda>i. case i of None \<Rightarrow> [] | Some item \<Rightarrow> scannedFiles item) its))"
    for its
    by (induction its) (simp_all add: traverseFileTree_scan split: option.splits)
  then show ?thesis
    by (simp add: handleDrop_def droppedFiles_def Let_def split: option.splits)
qed

lemma handleFileSelect_spec:
  "handleFileSelect targetFiles processing =
     (case targetFiles of
        None \<Rightarrow> None
      | Some fs \<Rightarrow> if processing then None
                   else Some (filter (\<lambda>f. startsWith ''image/'' (ftype f)) fs))"
  by (simp add: handleFileSelect_def split: option.splits)

text \<open>What a call of the handler with the image files among \<open>supplied\<close> adds.\<close>

lemma onFilesAdded_filtered:
  assumes call: "call = None \<or> call = Some (filter (\<lambda>f. startsWith ''image/'' (ftype f)) supplied)"
    and go: "call = None \<Longrightarrow> processing \<or> filter (\<lambda>f. startsWith ''image/'' (ftype f)) supplied = []"
  shows "\<exists>new. items (onFilesAdded rd uuid call s) = new @ items s
      \<and> (new = [] \<or> map itemFile new = filter (\<lambda>f. startsWith ''image/'' (ftype f)) supplied)
      \<and> (\<forall>i\<in>set new. startsWith ''image/'' (ftype (itemFile i)) \<and> itemFile i \<in> set supplied
            \<and> status (splitPart1 i) = Idle \<and> status (splitPart2 i) = Idle)
      \<and> (\<not> processing \<and> (\<forall>f\<in>set supplied. rd f \<noteq> None) \<longrightarrow>
            map itemFile new = filter (\<lambda>f. startsWith ''image/'' (ftype f)) supplied)"
proof (cases call)
  case None
  with go have "processing \<or> filter (\<lambda>f. startsWith ''image/'' (ftype f)) supplied = []" by simp
  moreover from None have "items (onFilesAdded rd uuid call s) = [] @ items s"
    by (simp add: onFilesAdded_def)
  ultimately show ?thesis by (intro exI [of _ "[]"]) auto
next
  case (Some files)
  with call have files: "files = filter (\<lambda>f. startsWith ''image/'' (ftype f)) supplied" by simp
  from handleFilesAdded_items [of rd uuid files s] obtain new where
    new: "items (handleFilesAdded rd uuid files s) = new @ items s"
      "new = [] \<or> map itemFile new = files"
      "(\<forall>f\<in>set files. rd f \<noteq> None) \<longrightarrow> map itemFile new = files"
      "\<forall>i\<in>set new. splitPart1 i = \<lparr>url = None, expandedUrl = None, status = Idle\<rparr>
                    \<and> splitPart2 i = \<lparr>url = None, expandedUrl = None, status = Idle\<rparr>"
    by blast
  have mem: "itemFile i \<in> set files" if "i \<in> set new" for i
  proof -
    from that new(2) have "map itemFile new = files" by auto
    with that show ?thesis by force
  qed
  have "items (onFilesAdded rd uuid call s) = new @ items s"
    using Some new(1) by (simp add: onFilesAdded_def)
  moreover have "new = [] \<or> map itemFile new = filter (\<lambda>f. startsWith ''image/'' (ftype f)) supplied"
    using new(2) files by simp
  moreover have "\<forall>i\<in>set new. startsWith ''image/'' (ftype (itemFile i)) \<and> itemFile i \<in> set supplied
            \<and> status (splitPart1 i) = Idle \<and> status (splitPart2 i) = Idle"
    using mem new(4) files by auto
  moreover have "\<not> processing \<and> (\<forall>f\<in>set supplied. rd f \<noteq> None) \<longrightarrow>
            map itemFile new = filter (\<lambda>f. startsWith ''image/'' (ftype f)) supplied"
    using new(3) files by auto
  ultimately show ?thesis by blast
qed

text \<open>
  C9: whatever is selected or dropped, the items after the upload are new items put in
  front of the old ones, and every new item belongs to a file whose MIME type starts with
  \<open>image/\<close> and has both halves idle. The file of a new item is one of the files
  supplied: one of the selected files, or one of the files that the scan of the dropped
  entries reaches. The new items are none at all, or one item for each supplied file of
  an image type, in the order of the files; they are the latter when the component is not
  processing and every supplied file can be read. So a file of another type gets no item,
  and a selection or a drop without image files adds nothing. The scan of a dropped
  entry itself gives the image files under the entry and no other.
\<close>

theorem upload_only_images:
  "(\<exists>new. items (selectFiles rd uuid targetFiles s) = new @ items s
      \<and> (\<forall>i\<in>set new. startsWith ''image/'' (ftype (itemFile i))
            \<and> (\<exists>fs. targetFiles = Some fs \<and> itemFile i \<in> set fs)
            \<and> status (splitPart1 i) = Idle \<and> status (splitPart2 i) = Idle)
      \<and> (\<forall>fs. targetFiles = Some fs \<and> \<not> isProcessing s \<and> (\<forall>f\<in>set fs. rd f \<noteq> None) \<longrightarrow>
            map itemFile new = filter (\<lambda>f. startsWith ''image/'' (ftype f)) fs)
      \<and> (new = [] \<or> (\<exists>fs. targetFiles = Some fs
            \<and> map itemFile new = filter (\<lambda>f. startsWith ''image/'' (ftype f)) fs)))
   \<and> (\<exists>new. items (dropFiles rd uuid dtItems dtFiles s) = new @ items s
      \<and> (\<forall>i\<in>set new. startsWith ''image/'' (ftype (itemFile i))
            \<and> itemFile i \<in> set (droppedFiles dtItems dtFiles)
            \<and> status (splitPart1 i) = Idle \<and> status (splitPart2 i) = Idle)
      \<and> (\<not> isProcessing s \<and> (\<forall>f\<in>set (droppedFiles dtItems dtFiles). rd f \<noteq> None) \<longrightarrow>
            map itemFile new
              = filter (\<lambda>f. startsWith ''image/'' (ftype f)) (droppedFiles dtItems dtFiles))
      \<and> (new = [] \<or> map itemFile new
              = filter (\<lambda>f. startsWith ''image/'' (ftype f)) (droppedFiles dtItems dtFiles)))
   \<and> (\<forall>e. traverseFileTree e = filter (\<lambda>f. startsWith ''image/'' (ftype f)) (scannedFiles e))"
proof (intro conjI)
  let ?img = "\<lambda>f. startsWith ''image/'' (ftype f)"
  show "\<exists>new. items (selectFiles rd uuid targetFiles s) = new @ items s
      \<and> (\<forall>i\<in>set new. ?img (itemFile i)
            \<and> (\<exists>fs. targetFiles = Some fs \<and> itemFile i \<in> set fs)
            \<and> status (splitPart1 i) = Idle \<and> status (splitPart2 i) = Idle)
      \<and> (\<forall>fs. targetFiles = Some fs \<and> \<not> isProcessing s \<and> (\<forall>f\<in>set fs. rd f \<noteq> None) \<longrightarrow>
            map itemFile new = filter ?img fs)
      \<and> (new = [] \<or> (\<exists>fs. targetFiles = Some fs \<and> map itemFile new = filter ?img fs))"
  proof (cases targetFiles)
    case None
    then have "items (selectFiles rd uuid targetFiles s) = [] @ items s"
      by (simp add: selectFiles_def onFilesAdded_def handleFileSelect_spec)
    with None show ?thesis by (intro exI [of _ "[]"]) simp
  next
    case (Some fs)
    have "\<exists>new. items (onFilesAdded rd uuid (handleFileSelect targetFiles (isProcessing s)) s)
          = new @ items s
      \<and> (new = [] \<or> map itemFile new = filter ?img fs)
      \<and> (\<forall>i\<in>set new. ?img (itemFile i) \<and> itemFile i \<in> set fs
            \<and> status (splitPart1 i) = Idle \<and> status (splitPart2 i) = Idle)
      \<and> (\<not> isProcessing s \<and> (\<forall>f\<in>set fs. rd f \<noteq> None) \<longrightarrow> map itemFile new = filter ?img fs)"
      by (rule onFilesAdded_filtered) (simp_all add: handleFileSelect_spec Some split: if_splits)
    then obtain new where
      new: "items (selectFiles rd uuid targetFiles s) = new @ items s"
        "new = [] \<or> map itemFile new = filter ?img fs"
        "\<forall>i\<in>set new. ?img (itemFile i) \<and> itemFile i \<in> set fs
            \<and> status (splitPart1 i) = Idle \<and> status (splitPart2 i) = Idle"
        "\<not> isProcessing s \<and> (\<forall>f\<in>set fs. rd f \<noteq> None) \<longrightarrow> map itemFile new = filter ?img fs"
      unfolding selectFiles_def by blast
    show ?thesis
      by (rule exI [of _ new]) (use new Some in auto)
  qed
  show "\<exists>new. items (dropFiles rd uuid dtItems dtFiles s) = new @ items s
      \<and> (\<forall>i\<in>set new. ?img (itemFile i)
            \<and> itemFile i \<in> set (droppedFiles dtItems dtFiles)
            \<and> status (splitPart1 i) = Idle \<and> status (splitPart2 i) = Idle)
      \<and> (\<not> isProcessing s \<and> (\<forall>f\<in>set (droppedFiles dtItems dtFiles). rd f \<noteq> None) \<longrightarrow>
            map itemFile new = filter ?img (droppedFiles dtItems dtFiles))
      \<and> (new = [] \<or> map itemFile new = filter ?img (droppedFiles dtItems dtFiles))"
  proof -
    have "\<exists>new. items (onFilesAdded rd uuid (handleDrop dtItems dtFiles (isProcessing s)) s)
          = new @ items s
      \<and> (new = [] \<or> map itemFile new = filter ?img (droppedFiles dtItems dtFiles))
      \<and> (\<forall>i\<in>set new. ?img (itemFile i) \<and> itemFile i \<in> set (droppedFiles dtItems dtFiles)
            \<and> status (splitPart1 i) = Idle \<and> status (splitPart2 i) = Idle)
      \<and> (\<not> isProcessing s \<and> (\<forall>f\<in>set (droppedFiles dtItems dtFiles). rd f \<noteq> None) \<longrightarrow>
            map itemFile new = filter ?img (droppedFiles dtItems dtFiles))"
      by (rule onFilesAdded_filtered) (simp_all add: handleDrop_spec split: if_splits)
    then show ?thesis unfolding dropFiles_def by blast
  qed
  show "\<forall>e. traverseFileTree e = filter ?img (scannedFiles e)"
    by (simp add: traverseFileTree_scan)
qed


text \<open>
  The theorem run on a selection of a PNG file and a text file, on a drop of the two
  sample folders (four files, two of them images, in two directories) and on a drop of
  the folder that holds a text file only.
\<close>

theorem upload_only_images_witness:
  "map itemFile (items (selectFiles (\<lambda>f. Some ''data:,'') (\<lambda>k. replicate (Suc k) CHR ''u'')
      (Some [demoFile, demoText]) (demoApp ''key'' []))) = [demoFile]
   \<and> droppedFiles (Some [Some demoTree, None, Some demoDocs]) []
      = [demoText, demoPhoto, demoFile, demoText]
   \<and> map itemFile (items (dropFiles (\<lambda>f. Some ''data:,'') (\<lambda>k. replicate (Suc k) CHR ''u'')
      (Some [Some demoTree, None, Some demoDocs]) [] (demoApp ''key'' []))) = [demoPhoto, demoFile]
   \<and> items (dropFiles (\<lambda>f. Some ''data:,'') (\<lambda>k. replicate (Suc k) CHR ''u'')
      (Some [Some demoDocs]) [] (demoApp ''key'' [])) = []"
proof -
  let ?rd = "\<lambda>f :: File. Some ''data:,''"
  let ?uuid = "\<lambda>k. replicate (Suc k) CHR ''u''"
  let ?s = "demoApp ''key'' []"
  have img: "startsWith ''image/'' (ftype demoFile)" "startsWith ''image/'' (ftype demoPhoto)"
    "\<not> startsWith ''image/'' (ftype demoText)"
    by (simp_all add: startsWith_def demoFile_def demoPhoto_def demoText_def)
  have s: "items ?s = []" "\<not> isProcessing ?s"
    by (simp_all add: demoApp_def)
  have d1: "droppedFiles (Some [Some demoTree, None, Some demoDocs]) []
      = [demoText, demoPhoto, demoFile, demoText]"
    by (simp add: droppedFiles_def demoTree_def demoDocs_def)
  have d2: "droppedFiles (Some [Some demoDocs]) [] = [demoText]"
    by (simp add: droppedFiles_def demoDocs_def)
  from upload_only_images [of ?rd ?uuid "Some [demoFile, demoText]" ?s
      "Some [Some demoTree, None, Some demoDocs]" "[]"]
  have a: "map itemFile (items (selectFiles ?rd ?uuid (Some [demoFile, demoText]) ?s)) = [demoFile]"
    and b: "map itemFile (items (dropFiles ?rd ?uuid (Some [Some demoTree, None, Some demoDocs]) [] ?s))
      = [demoPhoto, demoFile]"
    unfolding d1 by (auto simp: s img)
  from upload_only_images [of ?rd ?uuid None ?s "Some [Some demoDocs]" "[]"]
  have c: "items (dropFiles ?rd ?uuid (Some [Some demoDocs]) [] ?s) = []"
    unfolding d2 by (auto simp: s img)
  from a b c d1 show ?thesis by simp
qed

subsection \<open>Status transitions\<close>

lemma all_partNumber: "(\<forall>n. P n) \<longleftrightarrow> P One \<and> P Two"
  by (metis partNumber.exhaust)

lemma partOf_withPart:
  "partOf n (withPart m f i) = (if n = m then f (partOf n i) else partOf n i)"
  by (cases n; cases m; simp add: partOf_def withPart_def)

lemma expandKeys_append [simp]: "expandKeys (ts @ us) = expandKeys ts @ expandKeys us"
  by (induction ts rule: expandKeys.induct) simp_all

lemma splitTasks_append [simp]: "splitTasks (ts @ us) = splitTasks ts @ splitTasks us"
  by (induction ts rule: splitTasks.induct) simp_all

lemma expandKeys_mem: "AwaitExpand k n c \<in> set ts \<Longrightarrow> (k, n) \<in> set (expandKeys ts)"
  by (induction ts rule: expandKeys.induct) auto

lemma splitTasks_mem: "AwaitSplit item rest dir cfg \<in> set ts \<Longrightarrow> (item, rest) \<in> set (splitTasks ts)"
  by (induction ts rule: splitTasks.induct) auto

lemma expandKeys_remove1_split [simp]:
  "expandKeys (remove1 (AwaitSplit item rest dir cfg) ts) = expandKeys ts"
  by (induction ts rule: expandKeys.induct) auto

lemma splitTasks_remove1_expand [simp]:
  "splitTasks (remove1 (AwaitExpand k n c) ts) = splitTasks ts"
  by (induction ts rule: splitTasks.induct) auto

lemma expandKeys_remove1_expand:
  "AwaitExpand k n c \<in> set ts \<Longrightarrow> distinct (expandKeys ts) \<Longrightarrow>
   distinct (expandKeys (remove1 (AwaitExpand k n c) ts))
   \<and> set (expandKeys (remove1 (AwaitExpand k n c) ts)) = set (expandKeys ts) - {(k, n)}"
proof (induction ts rule: expandKeys.induct)
  case 1
  then show ?case by simp
next
  case (2 k' n' c' ts)
  show ?case
  proof (cases "AwaitExpand k n c = AwaitExpand k' n' c'")
    case True
    with 2 show ?thesis by auto
  next
    case False
    with 2 have "AwaitExpand k n c \<in> set ts" "distinct (expandKeys ts)" by auto
    from "2.IH" [OF this] expandKeys_mem [OF this(1)] "2.prems" False show ?thesis by auto
  qed
next
  case (3 item rest dir cfg ts)
  then show ?case by auto
qed

lemma splitTasks_remove1_split:
  "AwaitSplit item rest dir cfg \<in> set ts \<Longrightarrow> length (splitTasks ts) \<le> 1 \<Longrightarrow>
   splitTasks (remove1 (AwaitSplit item rest dir cfg) ts) = [] \<and> splitTasks ts = [(item, rest)]"
proof (induction ts rule: splitTasks.induct)
  case 1
  then show ?case by simp
next
  case (2 item' rest' dir' cfg' ts)
  then have e: "splitTasks ts = []" by simp
  show ?case
  proof (cases "AwaitSplit item rest dir cfg = AwaitSplit item' rest' dir' cfg'")
    case True
    with e show ?thesis by simp
  next
    case False
    with "2.prems" have "AwaitSplit item rest dir cfg \<in> set ts" by auto
    from splitTasks_mem [OF this] e show ?thesis by auto
  qed
next
  case (3 k n c ts)
  then show ?case by auto
qed


lemma map_ids_same:
  "(\<And>i. i \<in> set xs \<Longrightarrow> item_id (g i) = item_id i) \<Longrightarrow> map item_id (map g xs) = map item_id xs"
  by simp

lemma distinct_ids_eq:
  "distinct (map item_id xs) \<Longrightarrow> i \<in> set xs \<Longrightarrow> j \<in> set xs \<Longrightarrow> item_id i = item_id j \<Longrightarrow> i = j"
  by (meson distinct_map inj_on_def)

lemma ok_trans_map:
  assumes "distinct (map item_id xs)"
    and "\<And>i. i \<in> set xs \<Longrightarrow> item_id (g i) = item_id i"
    and "\<And>i n. i \<in> set xs \<Longrightarrow>
           status (partOf n i) = status (partOf n (g i))
           \<or> R (status (partOf n i)) (status (partOf n (g i)))"
  shows "ok_trans R xs (map g xs)"
  unfolding ok_trans_def
proof (intro ballI conjI impI allI)
  fix j assume "j \<in> set (map g xs)"
  then obtain i0 where i0: "i0 \<in> set xs" "j = g i0" by auto
  then have idj: "item_id j = item_id i0" using assms(2) by simp
  { assume "item_id j \<notin> item_id ` set xs"
    with idj i0 have False by auto
    then show "status (partOf n j) = Idle" for n .. }
  { fix i n assume "i \<in> set xs" "item_id i = item_id j"
    with idj i0 assms(1) have "i = i0" by (auto dest: distinct_ids_eq)
    with i0 assms(3) [of i0 n]
    show "status (partOf n i) = status (partOf n j) \<or> R (status (partOf n i)) (status (partOf n j))"
      by simp }
qed

lemma ok_trans_refl: "distinct (map item_id xs) \<Longrightarrow> ok_trans R xs xs"
  using ok_trans_map [of xs "\<lambda>i. i" R] by simp

lemma ok_trans_filter: "distinct (map item_id xs) \<Longrightarrow> ok_trans R xs (filter P xs)"
  unfolding ok_trans_def by (auto dest: distinct_ids_eq)

lemma ok_trans_Nil [simp]: "ok_trans R xs []"
  by (simp add: ok_trans_def)

lemma ok_trans_prepend:
  "distinct (map item_id (new @ xs)) \<Longrightarrow> (\<And>j n. j \<in> set new \<Longrightarrow> status (partOf n j) = Idle) \<Longrightarrow>
   ok_trans R xs (new @ xs)"
  unfolding ok_trans_def
  by (auto dest: distinct_ids_eq) 

lemma ok_trans_mono: "ok_trans R old new \<Longrightarrow> (\<And>a b. R a b \<Longrightarrow> S a b) \<Longrightarrow> ok_trans S old new"
  unfolding ok_trans_def by blast

lemma steps_ok_mono: "steps_ok R h \<Longrightarrow> (\<And>a b. R a b \<Longrightarrow> S a b) \<Longrightarrow> steps_ok S h"
  by (induction R h rule: steps_ok.induct) (auto intro: ok_trans_mono)

lemma steps_ok_append:
  "steps_ok R (seg @ [x]) \<Longrightarrow> steps_ok R (x # h) \<Longrightarrow> steps_ok R (seg @ x # h)"
proof (induction seg)
  case Nil
  then show ?case by simp
next
  case (Cons a seg)
  then show ?case by (cases seg) auto
qed

lemma edges_allowed: "edges e a b \<Longrightarrow> allowed a b"
  by (cases e) (auto simp: allowed_def)


lemma status_both:
  "status (partOf n (i\<lparr>splitPart1 := p, splitPart2 := q\<rparr>)) = (case n of One \<Rightarrow> status p | Two \<Rightarrow> status q)"
  by (cases n) (simp_all add: partOf_def)

lemma keys_used: "(k, n) \<in> set (expandKeys ts) \<Longrightarrow> k \<in> set (concat (map taskIds ts))"
  by (induction ts rule: expandKeys.induct) auto

lemma split_used:
  "(item, rest) \<in> set (splitTasks ts) \<Longrightarrow> x \<in> set (item # rest) \<Longrightarrow>
   item_id x \<in> set (concat (map taskIds ts))"
  by (induction ts rule: splitTasks.induct) auto

lemma item_ok_unused: "item_id i \<notin> set (concat (map taskIds ts)) \<Longrightarrow> item_ok ts i"
  unfolding item_ok_def
  by (auto dest: keys_used split_used)

lemma item_ok_fewer:
  "item_ok ts i \<Longrightarrow> set (expandKeys ts') \<subseteq> set (expandKeys ts) \<Longrightarrow>
   set (splitTasks ts') \<subseteq> set (splitTasks ts) \<Longrightarrow> item_ok ts' i"
  unfolding item_ok_def by blast

text \<open>Events that leave the items and the tasks alone.\<close>

lemma quiet_step:
  assumes "invariant s"
    and "items s' = items s" "pending s' = pending s" "history s' = history s"
    and "isProcessing s' = isProcessing s"
  shows "invariant s' \<and> (\<exists>seg. history s' = seg @ history s \<and> steps_ok R (seg @ [items s]))"
  using assms by (simp add: invariant_def)

lemma Save_step:
  "invariant s \<Longrightarrow> invariant (fire (Save cfg) s)
     \<and> (\<exists>seg. history (fire (Save cfg) s) = seg @ history s \<and> steps_ok R (seg @ [items s]))"
  by (rule quiet_step) (simp_all add: saveSettings_def)

lemma Direction_step:
  "invariant s \<Longrightarrow> invariant (fire (Direction d) s)
     \<and> (\<exists>seg. history (fire (Direction d) s) = seg @ history s \<and> steps_ok R (seg @ [items s]))"
  by (rule quiet_step) simp_all

lemma ShowSettings_step:
  "invariant s \<Longrightarrow> invariant (fire (ShowSettings b) s)
     \<and> (\<exists>seg. history (fire (ShowSettings b) s) = seg @ history s \<and> steps_ok R (seg @ [items s]))"
  by (rule quiet_step) simp_all

lemma Clear_step:
  assumes "invariant s"
  shows "invariant (fire (Clear b) s)
     \<and> (\<exists>seg. history (fire (Clear b) s) = seg @ history s \<and> steps_ok R (seg @ [items s]))"
proof (cases b)
  case False
  with assms show ?thesis by (simp add: clearAll_def)
next
  case True
  then have "history (fire (Clear b) s) = [[]] @ history s" "steps_ok R ([[]] @ [items s])"
    by (simp_all add: clearAll_def)
  moreover from True assms have "invariant (fire (Clear b) s)"
    by (simp add: clearAll_def invariant_def)
  ultimately show ?thesis by blast
qed

lemma Remove_step:
  assumes "invariant s"
  shows "invariant (fire (Remove k) s)
     \<and> (\<exists>seg. history (fire (Remove k) s) = seg @ history s \<and> steps_ok R (seg @ [items s]))"
proof -
  let ?xs = "filter (\<lambda>item. item_id item \<noteq> k) (items s)"
  have "history (fire (Remove k) s) = [?xs] @ history s"
    by (simp add: removeItem_def)
  moreover have "steps_ok R ([?xs] @ [items s])"
    using assms by (simp add: invariant_def ok_trans_filter)
  moreover have "invariant (fire (Remove k) s)"
    using assms by (simp add: removeItem_def invariant_def distinct_map_filter)
  ultimately show ?thesis by blast
qed

lemma handleFilesAdded_loop_ids:
  "handleFilesAdded_loop rd uuid files acc = Inr xs \<Longrightarrow>
   \<exists>new. xs = acc @ new \<and> map item_id new = map uuid [length acc..<length acc + length files]
     \<and> (\<forall>j\<in>set new. \<forall>n. status (partOf n j) = Idle)"
proof (induction files arbitrary: acc)
  case Nil
  then show ?case by simp
next
  case (Cons f files)
  from Cons.prems obtain original where
    rec: "handleFilesAdded_loop rd uuid files
            (acc @ [\<lparr>item_id = uuid (length acc), originalUrl = original, itemFile = f,
                     splitPart1 = \<lparr>url = None, expandedUrl = None, status = Idle\<rparr>,
                     splitPart2 = \<lparr>url = None, expandedUrl = None, status = Idle\<rparr>\<rparr>]) = Inr xs"
    by (auto split: option.splits)
  let ?a = "\<lparr>item_id = uuid (length acc), originalUrl = original, itemFile = f,
                     splitPart1 = \<lparr>url = None, expandedUrl = None, status = Idle\<rparr>,
                     splitPart2 = \<lparr>url = None, expandedUrl = None, status = Idle\<rparr>\<rparr>"
  from Cons.IH [OF rec] obtain new where
    new: "xs = (acc @ [?a]) @ new"
      "map item_id new = map uuid [length (acc @ [?a])..<length (acc @ [?a]) + length files]"
      "\<forall>j\<in>set new. \<forall>n. status (partOf n j) = Idle"
    by blast
  have "[length acc..<length acc + Suc (length files)]
          = length acc # [Suc (length acc)..<length acc + Suc (length files)]"
    by (rule upt_conv_Cons) simp
  then have "[length acc..<length acc + length (f # files)]
          = length acc # [Suc (length acc)..<Suc (length acc) + length files]"
    by simp
  with new have "xs = acc @ (?a # new)"
    "map item_id (?a # new) = map uuid [length acc..<length acc + length (f # files)]"
    "\<forall>j\<in>set (?a # new). \<forall>n. status (partOf n j) = Idle"
    by (simp_all add: all_partNumber partOf_def)
  then show ?case by blast
qed

lemma Upload_step:
  assumes inv: "invariant s" and en: "enabled (Upload rd uuid files) s"
  shows "invariant (fire (Upload rd uuid files) s)
     \<and> (\<exists>seg. history (fire (Upload rd uuid files) s) = seg @ history s
           \<and> steps_ok R (seg @ [items s]))"
proof (cases "handleFilesAdded_loop rd uuid files []")
  case (Inl e)
  then have "fire (Upload rd uuid files) s = s" by (simp add: handleFilesAdded_def)
  with inv show ?thesis by (simp add: invariant_def)
next
  case (Inr xs)
  from handleFilesAdded_loop_ids [OF Inr]
  have ids: "map item_id xs = map uuid [0..<length files]"
    and idle: "\<And>j n. j \<in> set xs \<Longrightarrow> status (partOf n j) = Idle"
    by auto
  have mem: "item_id j \<in> set (map uuid [0..<length files])" if "j \<in> set xs" for j
    using that ids by (metis image_eqI set_map)
  have fresh: "distinct (map item_id xs)" "\<And>j. j \<in> set xs \<Longrightarrow> item_id j \<notin> usedIds s"
  proof -
    show "distinct (map item_id xs)" using en ids by simp
    show "item_id j \<notin> usedIds s" if "j \<in> set xs" for j
      using en mem [OF that] by simp (metis imageE)
  qed
  have its: "items (fire (Upload rd uuid files) s) = xs @ items s"
    "pending (fire (Upload rd uuid files) s) = pending s"
    "isProcessing (fire (Upload rd uuid files) s) = isProcessing s"
    "history (fire (Upload rd uuid files) s) = [xs @ items s] @ history s"
    using Inr by (simp_all add: handleFilesAdded_def)
  have d: "distinct (map item_id (xs @ items s))"
    using inv fresh by (auto simp: invariant_def usedIds_def)
  have "\<forall>i\<in>set (xs @ items s). item_ok (pending s) i"
    using inv fresh(2) by (auto simp: invariant_def usedIds_def intro: item_ok_unused)
  with inv d its have "invariant (fire (Upload rd uuid files) s)"
    by (simp add: invariant_def)
  moreover have "steps_ok R ([xs @ items s] @ [items s])"
    using ok_trans_prepend [OF d idle] by simp
  ultimately show ?thesis using its(4) by blast
qed


text \<open>The loop of the batch start, entered with nothing waiting for a split.\<close>

lemma loop_step:
  assumes d: "distinct (map item_id (items s))"
    and t: "tasks_ok (pending s)" "splitTasks (pending s) = []"
    and io: "\<forall>i\<in>set (items s). item_ok (pending s) i"
    and h: "history s \<noteq> []" "hd (history s) = items s"
    and todo: "distinct (map item_id todo)"
      "\<forall>r\<in>set todo. \<forall>i\<in>set (items s). item_id i = item_id r \<longrightarrow> (\<forall>n. status (partOf n i) = Idle)"
      "\<forall>r\<in>set todo. \<forall>n. (item_id r, n) \<notin> set (expandKeys (pending s))"
    and R: "R Idle Splitting"
    and p: "isProcessing s"
  shows "invariant (startProcessing_loop todo dir cfg s)
     \<and> (\<exists>seg. history (startProcessing_loop todo dir cfg s) = seg @ history s
           \<and> steps_ok R (seg @ [items s]))"
proof (cases todo)
  case Nil
  with d t io h show ?thesis by (simp add: invariant_def)
next
  case (Cons a rest)
  let ?g = "\<lambda>i. if item_id i = item_id a
               then i\<lparr>splitPart1 := (splitPart1 i)\<lparr>status := Splitting\<rparr>,
                      splitPart2 := (splitPart2 i)\<lparr>status := Splitting\<rparr>\<rparr>
               else i"
  let ?xs = "map ?g (items s)"
  let ?ts = "pending s @ [AwaitSplit a rest dir cfg]"
  let ?s' = "startProcessing_loop todo dir cfg s"
  have eff: "items ?s' = ?xs" "pending ?s' = ?ts" "history ?s' = [?xs] @ history s"
    using Cons by (simp_all add: Let_def markSplitting_def)
  have gid: "item_id (?g i) = item_id i" for i by simp
  have "map item_id ?xs = map item_id (items s)"
    by (rule map_ids_same) simp
  then have d': "distinct (map item_id ?xs)"
    using d by (simp only:)
  have t': "tasks_ok ?ts"
    using t todo Cons by (auto simp: tasks_ok_def)
  have io': "item_ok ?ts j" if "j \<in> set ?xs" for j
  proof -
    from that obtain i where i: "i \<in> set (items s)" "j = ?g i" by auto
    with io have ok: "item_ok (pending s) i" by simp
    show ?thesis
    proof (cases "item_id i = item_id a")
      case True
      with i todo(1,3) Cons show ?thesis
        by (auto simp: item_ok_def t(2) status_both split: partNumber.splits)
    next
      case False
      with i have "j = i" by simp
      moreover have "\<forall>n. status (partOf n i) = Idle" if "item_id i \<in> item_id ` set rest"
        using that todo(2) i(1) Cons by auto
      ultimately show ?thesis
        using ok False by (auto simp: item_ok_def t(2))
    qed
  qed
  have "ok_trans R (items s) ?xs"
  proof (rule ok_trans_map [OF d])
    fix i n assume "i \<in> set (items s)"
    with todo(2) Cons have "item_id i = item_id a \<Longrightarrow> status (partOf n i) = Idle"
      by simp
    with R show "status (partOf n i) = status (partOf n (?g i))
        \<or> R (status (partOf n i)) (status (partOf n (?g i)))"
      by (cases n) (auto simp: partOf_def)
  qed simp
  then have "steps_ok R ([?xs] @ [items s])" by simp
  moreover have "invariant ?s'"
  proof -
    have "distinct (map item_id (items ?s'))" unfolding eff by (rule d')
    moreover have "tasks_ok (pending ?s')" unfolding eff by (rule t')
    moreover have "\<forall>i\<in>set (items ?s'). item_ok (pending ?s') i"
      unfolding eff using io' by blast
    moreover have "isProcessing ?s'" using Cons p by (simp add: Let_def)
    moreover have "history ?s' \<noteq> [] \<and> hd (history ?s') = items ?s'"
      unfolding eff by simp
    ultimately show ?thesis unfolding invariant_def by blast
  qed
  ultimately show ?thesis using eff(3) by blast
qed

lemma Start_step:
  assumes inv: "invariant s" and en: "enabled Start s"
  shows "invariant (fire Start s)
     \<and> (\<exists>seg. history (fire Start s) = seg @ history s \<and> steps_ok (edges Start) (seg @ [items s]))"
proof (cases "apiKey (settings s) = []")
  case True
  then have "fire Start s = s\<lparr>showSettings := True\<rparr>" by (simp add: startProcessing_def)
  then show ?thesis using inv by (simp add: invariant_def)
next
  case False
  let ?todo = "filter (\<lambda>i. status (splitPart1 i) = Idle \<and> status (splitPart2 i) = Idle) (items s)"
  let ?s1 = "s\<lparr>isProcessing := True\<rparr>"
  have f: "fire Start s = startProcessing_loop ?todo (splitDirection s) (settings s) ?s1"
    using False by (simp add: startProcessing_def Let_def)
  from inv en have no: "splitTasks (pending s) = []" by (simp add: invariant_def)
  have idle: "status (partOf n i) = Idle" if "r \<in> set ?todo" "i \<in> set (items s)" "item_id i = item_id r" for r i n
  proof -
    from that inv have "i = r" by (auto simp: invariant_def dest: distinct_ids_eq)
    with that(1) show ?thesis by (cases n) (simp_all add: partOf_def)
  qed
  have nokey: "(item_id r, n) \<notin> set (expandKeys (pending s))" if "r \<in> set ?todo" for r n
  proof
    assume "(item_id r, n) \<in> set (expandKeys (pending s))"
    moreover from that inv have "item_ok (pending s) r" by (simp add: invariant_def)
    ultimately have "status (partOf n r) = Expanding" by (simp add: item_ok_def)
    with that show False by (cases n) (simp_all add: partOf_def)
  qed
  have "invariant (startProcessing_loop ?todo (splitDirection s) (settings s) ?s1)
     \<and> (\<exists>seg. history (startProcessing_loop ?todo (splitDirection s) (settings s) ?s1)
            = seg @ history ?s1 \<and> steps_ok (edges Start) (seg @ [items ?s1]))"
  proof (rule loop_step)
    show "distinct (map item_id ?todo)"
      using inv by (simp add: invariant_def distinct_map_filter)
    show "\<forall>r\<in>set ?todo. \<forall>i\<in>set (items ?s1). item_id i = item_id r \<longrightarrow> (\<forall>n. status (partOf n i) = Idle)"
      using idle by simp
    show "\<forall>r\<in>set ?todo. \<forall>n. (item_id r, n) \<notin> set (expandKeys (pending ?s1))"
      using nokey by simp
  qed (use inv no in \<open>simp_all add: invariant_def\<close>)
  with f show ?thesis by simp
qed


lemma item_ok_iff:
  "item_ok ts i \<longleftrightarrow>
     (\<forall>n. (item_id i, n) \<in> set (expandKeys ts) \<longrightarrow> status (partOf n i) = Expanding)
     \<and> (\<forall>item rest. (item, rest) \<in> set (splitTasks ts) \<longrightarrow>
           (item_id i = item_id item \<longrightarrow> (\<forall>n. status (partOf n i) = Splitting))
           \<and> (item_id i \<in> item_id ` set rest \<longrightarrow> (\<forall>n. status (partOf n i) = Idle)))"
  unfolding item_ok_def by auto

text \<open>An update of one half of the items with one identifier, with a change of the tasks.\<close>

lemma half_update:
  assumes io: "\<forall>i\<in>set xs. item_ok ts i"
    and sp: "set (splitTasks ts') \<subseteq> set (splitTasks ts)"
    and ks: "set (expandKeys ts') \<subseteq> insert (k, n) (set (expandKeys ts))"
    and f: "(k, n) \<in> set (expandKeys ts') \<Longrightarrow> (\<And>p. status (f p) = Expanding)"
    and ns: "\<forall>(item, rest)\<in>set (splitTasks ts). k \<notin> item_id ` set (item # rest)"
    and j: "j \<in> set (map (\<lambda>i. if item_id i \<noteq> k then i else withPart n f i) xs)"
  shows "item_ok ts' j"
proof -
  from j obtain i where i: "i \<in> set xs" "j = (if item_id i \<noteq> k then i else withPart n f i)"
    by auto
  with io have ok: "item_ok ts i" by simp
  show ?thesis
  proof (cases "item_id i = k")
    case False
    with i have "j = i" by simp
    moreover have "(item_id i, m) \<in> set (expandKeys ts)" if "(item_id i, m) \<in> set (expandKeys ts')" for m
      using that ks False by auto
    ultimately show ?thesis
      using ok sp unfolding item_ok_iff by blast
  next
    case True
    with i have jj: "j = withPart n f i" "item_id j = k" by simp_all
    have "status (partOf m j) = Expanding" if "(k, m) \<in> set (expandKeys ts')" for m
    proof (cases "m = n")
      case True
      with that f jj show ?thesis by (simp add: partOf_withPart)
    next
      case False
      with that ks have "(k, m) \<in> set (expandKeys ts)" by auto
      with ok \<open>item_id i = k\<close> have "status (partOf m i) = Expanding" by (auto simp: item_ok_def)
      with False jj show ?thesis by (simp add: partOf_withPart)
    qed
    moreover have "item_id j \<noteq> item_id item \<and> item_id j \<notin> item_id ` set rest"
      if "(item, rest) \<in> set (splitTasks ts')" for item rest
      using that sp ns jj(2) by fastforce
    ultimately show ?thesis
      unfolding item_ok_def using jj(2) by auto
  qed
qed

lemma half_ids:
  "map item_id (map (\<lambda>i. if item_id i \<noteq> k then i else withPart n f i) xs) = map item_id xs"
  by (rule map_ids_same) simp

lemma half_trans:
  assumes d: "distinct (map item_id xs)"
    and st: "\<And>i. i \<in> set xs \<Longrightarrow> item_id i = k \<Longrightarrow>
               status (partOf n i) = status (f (partOf n i))
               \<or> R (status (partOf n i)) (status (f (partOf n i)))"
  shows "ok_trans R xs (map (\<lambda>i. if item_id i \<noteq> k then i else withPart n f i) xs)"
proof (rule ok_trans_map [OF d])
  fix i m assume "i \<in> set xs"
  with st [of i]
  show "status (partOf m i) = status (partOf m (if item_id i \<noteq> k then i else withPart n f i))
      \<or> R (status (partOf m i)) (status (partOf m (if item_id i \<noteq> k then i else withPart n f i)))"
    by (auto simp: partOf_withPart)
qed simp

lemma Retry_step:
  assumes inv: "invariant s" and en: "enabled (Retry k n) s"
  shows "invariant (fire (Retry k n) s)
     \<and> (\<exists>seg. history (fire (Retry k n) s) = seg @ history s
           \<and> steps_ok (edges (Retry k n)) (seg @ [items s]))"
proof -
  let ?g = "\<lambda>i. if item_id i \<noteq> k then i else withPart n (\<lambda>p. p\<lparr>status := Expanding\<rparr>) i"
  let ?s' = "fire (Retry k n) s"
  from en obtain i0 where i0: "i0 \<in> set (items s)" "item_id i0 = k" "status (partOf n i0) = Error"
    by auto
  from inv have d: "distinct (map item_id (items s))" and t: "tasks_ok (pending s)"
    and io: "\<forall>i\<in>set (items s). item_ok (pending s) i"
    by (simp_all add: invariant_def)
  have "?s' = s\<lparr>showSettings := True\<rparr> \<or> ?s' = s
      \<or> (\<exists>u. ?s' = processImagePart k n u (settings s) s)"
    by (simp add: retryPart_cases split: option.splits) blast
  then consider (same) "?s' = s\<lparr>showSettings := True\<rparr> \<or> ?s' = s"
    | (go) u where "?s' = processImagePart k n u (settings s) s"
    by blast
  then show ?thesis
  proof cases
    case same
    then have "items ?s' = items s" "pending ?s' = pending s" "history ?s' = history s"
      "isProcessing ?s' = isProcessing s"
      by auto
    with inv show ?thesis by (rule quiet_step)
  next
    case (go u)
    let ?c = "expandImageWithGemini_request u (settings s)"
    let ?ts = "pending s @ [AwaitExpand k n ?c]"
    have eff: "items ?s' = map ?g (items s)" "pending ?s' = ?ts"
      "history ?s' = [map ?g (items s)] @ history s" "isProcessing ?s' = isProcessing s"
      unfolding go by (simp_all add: markExpanding_def)
    from io i0 have ok0: "item_ok (pending s) i0" by simp
    have nokey: "(k, n) \<notin> set (expandKeys (pending s))"
      using ok0 i0 by (auto simp: item_ok_def)
    have ns: "\<forall>(item, rest)\<in>set (splitTasks (pending s)). k \<notin> item_id ` set (item # rest)"
      using ok0 i0 by (fastforce simp: item_ok_def)
    have t': "tasks_ok ?ts"
      using t nokey ns by (fastforce simp: tasks_ok_def)
    have io': "\<forall>j\<in>set (map ?g (items s)). item_ok ?ts j"
      using half_update [OF io _ _ _ ns, of ?ts n "\<lambda>p. p\<lparr>status := Expanding\<rparr>"]
      by auto
    have tr: "ok_trans (edges (Retry k n)) (items s) (map ?g (items s))"
    proof (rule half_trans [OF d])
      fix i assume "i \<in> set (items s)" "item_id i = k"
      with i0 d have "i = i0" by (auto dest: distinct_ids_eq)
      with i0 show "status (partOf n i) = status ((partOf n i)\<lparr>status := Expanding\<rparr>)
          \<or> edges (Retry k n) (status (partOf n i)) (status ((partOf n i)\<lparr>status := Expanding\<rparr>))"
        by simp
    qed
    have "invariant ?s'"
      unfolding invariant_def eff
      using d t' io' inv by (simp add: half_ids invariant_def del: map_map)
    moreover have "steps_ok (edges (Retry k n)) ([map ?g (items s)] @ [items s])"
      using tr by simp
    ultimately show ?thesis using eff(3) by blast
  qed
qed


lemma tasks_ok_remove1: "tasks_ok ts \<Longrightarrow> t \<in> set ts \<Longrightarrow> tasks_ok (remove1 t ts)"
proof (cases t)
  case (AwaitSplit item rest dir cfg)
  assume "tasks_ok ts" "t \<in> set ts"
  with AwaitSplit splitTasks_remove1_split [of item rest dir cfg ts] show ?thesis
    by (simp add: tasks_ok_def)
next
  case (AwaitExpand k n c)
  assume "tasks_ok ts" "t \<in> set ts"
  with AwaitExpand expandKeys_remove1_expand [of k n c ts] show ?thesis
    by (auto simp: tasks_ok_def)
qed

lemma settle_update:
  assumes inv: "invariant s" and en: "AwaitExpand k n c \<in> set (pending s)"
    and eff: "items s' = map (\<lambda>i. if item_id i \<noteq> k then i else withPart n f i) (items s)"
      "pending s' = remove1 (AwaitExpand k n c) (pending s)"
      "history s' = [items s'] @ history s" "isProcessing s' = isProcessing s"
    and f: "\<And>p. R Expanding (status (f p))"
  shows "invariant s' \<and> (\<exists>seg. history s' = seg @ history s \<and> steps_ok R (seg @ [items s]))"
proof -
  let ?g = "\<lambda>i. if item_id i \<noteq> k then i else withPart n f i"
  let ?ts = "remove1 (AwaitExpand k n c) (pending s)"
  from inv have d: "distinct (map item_id (items s))" and t: "tasks_ok (pending s)"
    and io: "\<forall>i\<in>set (items s). item_ok (pending s) i"
    by (simp_all add: invariant_def)
  from en have key: "(k, n) \<in> set (expandKeys (pending s))" by (rule expandKeys_mem)
  from t have dk: "distinct (expandKeys (pending s))" by (simp add: tasks_ok_def)
  note rm = expandKeys_remove1_expand [OF en dk]
  have ns: "\<forall>(item, rest)\<in>set (splitTasks (pending s)). k \<notin> item_id ` set (item # rest)"
    using t key by (fastforce simp: tasks_ok_def)
  have t': "tasks_ok ?ts" using t en by (rule tasks_ok_remove1)
  have io': "\<forall>j\<in>set (map ?g (items s)). item_ok ?ts j"
    using half_update [OF io _ _ _ ns, of ?ts n f] rm by auto
  have tr: "ok_trans R (items s) (map ?g (items s))"
  proof (rule half_trans [OF d])
    fix i assume "i \<in> set (items s)" "item_id i = k"
    with io key have "status (partOf n i) = Expanding" by (auto simp: item_ok_def)
    with f show "status (partOf n i) = status (f (partOf n i))
        \<or> R (status (partOf n i)) (status (f (partOf n i)))"
      by simp
  qed
  have "invariant s'"
    unfolding invariant_def eff
    using d t' io' inv by (simp add: half_ids invariant_def del: map_map)
  moreover have "steps_ok R ([items s'] @ [items s])"
    using tr eff(1) by simp
  ultimately show ?thesis using eff(3) by blast
qed

lemma ExpandSettled_step:
  assumes inv: "invariant s" and en: "enabled (ExpandSettled k n c settled) s"
  shows "invariant (fire (ExpandSettled k n c settled) s)
     \<and> (\<exists>seg. history (fire (ExpandSettled k n c settled) s) = seg @ history s
           \<and> steps_ok (edges (ExpandSettled k n c settled)) (seg @ [items s]))"
proof -
  let ?s' = "fire (ExpandSettled k n c settled) s"
  let ?s0 = "s\<lparr>pending := remove1 (AwaitExpand k n c) (pending s)\<rparr>"
  from en have T: "AwaitExpand k n c \<in> set (pending s)" by simp
  have "(\<exists>lines. ?s' = setItems (markError k n) (?s0\<lparr>console := lines\<rparr>))
      \<or> (\<exists>x. ?s' = setItems (markDone k n x) ?s0)"
    by (simp add: processImagePart_resume_def split: sum.splits) blast
  then consider (err) lines where "?s' = setItems (markError k n) (?s0\<lparr>console := lines\<rparr>)"
    | (ok) x where "?s' = setItems (markDone k n x) ?s0"
    by blast
  then show ?thesis
  proof cases
    case (err lines)
    show ?thesis
      by (rule settle_update [OF inv T, where f = "\<lambda>p. p\<lparr>status := Error\<rparr>"])
        (unfold err, simp_all add: markError_def)
  next
    case (ok x)
    show ?thesis
      by (rule settle_update [OF inv T, where f = "\<lambda>p. p\<lparr>expandedUrl := Some x, status := Done\<rparr>"])
        (unfold ok, simp_all add: markDone_def)
  qed
qed


lemma SplitSettled_step:
  assumes inv: "invariant s" and en: "enabled (SplitSettled item rest dir cfg split) s"
  shows "invariant (fire (SplitSettled item rest dir cfg split) s)
     \<and> (\<exists>seg. history (fire (SplitSettled item rest dir cfg split) s) = seg @ history s
           \<and> steps_ok (edges (SplitSettled item rest dir cfg split)) (seg @ [items s]))"
proof -
  let ?R = "edges (SplitSettled item rest dir cfg split)"
  let ?T = "AwaitSplit item rest dir cfg"
  let ?ts0 = "remove1 ?T (pending s)"
  let ?s0 = "s\<lparr>pending := ?ts0\<rparr>"
  let ?k = "item_id item"
  let ?xs = "items s"
  from en have T: "?T \<in> set (pending s)" by simp
  from inv have d: "distinct (map item_id ?xs)" and t: "tasks_ok (pending s)"
    and io: "\<forall>i\<in>set ?xs. item_ok (pending s) i"
    and pr: "\<not> isProcessing s \<longrightarrow> splitTasks (pending s) = []"
    and h: "history s \<noteq> []" "hd (history s) = ?xs"
    by (simp_all add: invariant_def)
  from t have "length (splitTasks (pending s)) \<le> 1" by (simp add: tasks_ok_def)
  from splitTasks_remove1_split [OF T this]
  have st0: "splitTasks ?ts0 = []" and st: "splitTasks (pending s) = [(item, rest)]"
    by simp_all
  from pr st have proc: "isProcessing s" by auto
  have keys0: "expandKeys ?ts0 = expandKeys (pending s)" by simp
  from t st have dr: "distinct (map item_id (item # rest))"
    and nk: "\<And>x n. x \<in> set (item # rest) \<Longrightarrow> (item_id x, n) \<notin> set (expandKeys (pending s))"
    by (auto simp: tasks_ok_def)
  from io st have sp: "\<And>i n. i \<in> set ?xs \<Longrightarrow> item_id i = ?k \<Longrightarrow> status (partOf n i) = Splitting"
    and idl: "\<And>i n. i \<in> set ?xs \<Longrightarrow> item_id i \<in> item_id ` set rest \<Longrightarrow> status (partOf n i) = Idle"
    by (auto simp: item_ok_def)
  have kr: "item_id r \<noteq> ?k" if "r \<in> set rest" for r
  proof -
    from dr have "?k \<notin> item_id ` set rest" by simp
    moreover from that have "item_id r \<in> item_id ` set rest" by (rule imageI)
    ultimately show ?thesis by metis
  qed
  have t0: "tasks_ok ?ts0" using t T by (rule tasks_ok_remove1)
  have io0: "\<forall>i\<in>set ?xs. item_ok ?ts0 i"
    using io by (auto intro: item_ok_fewer simp: st0)
  have R: "?R Idle Splitting" "?R Splitting Idle" "?R Idle Expanding" by simp_all
  show ?thesis
  proof (cases split)
    case (Inl e)
    let ?s1 = "?s0\<lparr>console := console ?s0 @ [''Splitting error'']\<rparr>"
    have f: "fire (SplitSettled item rest dir cfg split) s = startProcessing_loop rest dir cfg ?s1"
      using Inl by (simp add: startProcessing_resume_def)
    have "invariant (startProcessing_loop rest dir cfg ?s1)
       \<and> (\<exists>seg. history (startProcessing_loop rest dir cfg ?s1) = seg @ history ?s1
             \<and> steps_ok ?R (seg @ [items ?s1]))"
    proof (rule loop_step)
      show "\<forall>r\<in>set rest. \<forall>i\<in>set (items ?s1). item_id i = item_id r \<longrightarrow> (\<forall>n. status (partOf n i) = Idle)"
        using idl by auto
      show "\<forall>r\<in>set rest. \<forall>n. (item_id r, n) \<notin> set (expandKeys (pending ?s1))"
        using nk by simp
    qed (use d t0 st0 io0 h dr proc R in simp_all)
    with f show ?thesis by simp
  next
    case (Inr parts)
    obtain p1 p2 where parts: "parts = (p1, p2)" by (cases parts)
    let ?gS = "\<lambda>i. if item_id i = ?k
                 then i\<lparr>splitPart1 := (splitPart1 i)\<lparr>url := Some p1, status := Idle\<rparr>,
                        splitPart2 := (splitPart2 i)\<lparr>url := Some p2, status := Idle\<rparr>\<rparr>
                 else i"
    let ?gE = "\<lambda>n i. if item_id i \<noteq> ?k then i else withPart n (\<lambda>p. p\<lparr>status := Expanding\<rparr>) i"
    let ?x1 = "map ?gS ?xs"
    let ?x2 = "map (?gE One) ?x1"
    let ?x3 = "map (?gE Two) ?x2"
    let ?c1 = "expandImageWithGemini_request p1 cfg"
    let ?c2 = "expandImageWithGemini_request p2 cfg"
    let ?ts3 = "?ts0 @ [AwaitExpand ?k One ?c1, AwaitExpand ?k Two ?c2]"
    let ?s3 = "processImagePart ?k Two p2 cfg
                 (processImagePart ?k One p1 cfg (setItems (markSplit ?k p1 p2) ?s0))"
    have f: "fire (SplitSettled item rest dir cfg split) s = startProcessing_loop rest dir cfg ?s3"
      using Inr parts by (simp add: startProcessing_resume_def Let_def)
    have eff: "items ?s3 = ?x3" "pending ?s3 = ?ts3" "history ?s3 = [?x3, ?x2, ?x1] @ history s"
      "isProcessing ?s3 = isProcessing s"
      by (simp_all add: markSplit_def markExpanding_def)
    have id1: "map item_id ?x1 = map item_id ?xs" by (rule map_ids_same) simp
    have id2: "map item_id ?x2 = map item_id ?x1" by (rule half_ids)
    have id3: "map item_id ?x3 = map item_id ?x2" by (rule half_ids)
    have d1: "distinct (map item_id ?x1)" unfolding id1 by (rule d)
    have d2: "distinct (map item_id ?x2)" unfolding id2 by (rule d1)
    have d3: "distinct (map item_id ?x3)" unfolding id3 by (rule d2)
    have x3: "(item_id i = ?k \<longrightarrow> (\<forall>n. status (partOf n (?gE Two (?gE One (?gS i)))) = Expanding))
        \<and> (item_id i \<noteq> ?k \<longrightarrow> ?gE Two (?gE One (?gS i)) = i)
        \<and> item_id (?gE Two (?gE One (?gS i))) = item_id i" for i
      by (simp add: all_partNumber partOf_withPart)
    have mem3: "\<exists>i\<in>set ?xs. j = ?gE Two (?gE One (?gS i))" if "j \<in> set ?x3" for j
      using that by auto
    have t3: "tasks_ok ?ts3"
      using t0 nk [of item] by (auto simp: tasks_ok_def st0)
    have io3: "item_ok ?ts3 j" if "j \<in> set ?x3" for j
    proof -
      from mem3 [OF that] obtain i where i: "i \<in> set ?xs" "j = ?gE Two (?gE One (?gS i))"
        by blast
      show ?thesis
      proof (cases "item_id i = ?k")
        case True
        with x3 [of i] i(2) have "\<forall>n. status (partOf n j) = Expanding" by simp
        then show ?thesis by (simp add: item_ok_iff st0)
      next
        case False
        with x3 [of i] i(2) have "j = i" by simp
        with i(1) io0 False show ?thesis by (auto simp: item_ok_iff st0)
      qed
    qed
    have tr1: "ok_trans ?R ?xs ?x1"
    proof (rule ok_trans_map [OF d])
      fix i n assume "i \<in> set ?xs"
      with sp [of i n] show "status (partOf n i) = status (partOf n (?gS i))
          \<or> ?R (status (partOf n i)) (status (partOf n (?gS i)))"
        by (cases n) (auto simp: partOf_def)
    qed simp
    have tr2: "ok_trans ?R ?x1 ?x2"
    proof (rule half_trans [OF d1])
      fix i assume "i \<in> set ?x1" "item_id i = ?k"
      then have "status (partOf One i) = Idle" by (auto simp: partOf_def)
      then show "status (partOf One i) = status ((partOf One i)\<lparr>status := Expanding\<rparr>)
          \<or> ?R (status (partOf One i)) (status ((partOf One i)\<lparr>status := Expanding\<rparr>))"
        by simp
    qed
    have tr3: "ok_trans ?R ?x2 ?x3"
    proof (rule half_trans [OF d2])
      fix i assume "i \<in> set ?x2" "item_id i = ?k"
      then have "status (partOf Two i) = Idle" by (auto simp: partOf_def withPart_def)
      then show "status (partOf Two i) = status ((partOf Two i)\<lparr>status := Expanding\<rparr>)
          \<or> ?R (status (partOf Two i)) (status ((partOf Two i)\<lparr>status := Expanding\<rparr>))"
        by simp
    qed
    have "invariant (startProcessing_loop rest dir cfg ?s3)
       \<and> (\<exists>seg. history (startProcessing_loop rest dir cfg ?s3) = seg @ history ?s3
             \<and> steps_ok ?R (seg @ [items ?s3]))"
    proof (rule loop_step)
      show "distinct (map item_id (items ?s3))" unfolding eff by (rule d3)
      show "tasks_ok (pending ?s3)" unfolding eff by (rule t3)
      show "splitTasks (pending ?s3) = []" unfolding eff by (simp add: st0)
      show "\<forall>i\<in>set (items ?s3). item_ok (pending ?s3) i" unfolding eff using io3 by blast
      show "history ?s3 \<noteq> []" "hd (history ?s3) = items ?s3" unfolding eff by simp_all
      show "distinct (map item_id rest)" using dr by simp
      show "\<forall>r\<in>set rest. \<forall>i\<in>set (items ?s3). item_id i = item_id r \<longrightarrow> (\<forall>n. status (partOf n i) = Idle)"
        unfolding eff
      proof (intro ballI impI allI)
        fix r j n assume r: "r \<in> set rest" and j: "j \<in> set ?x3" "item_id j = item_id r"
        from mem3 [OF j(1)] obtain i where i: "i \<in> set ?xs" "j = ?gE Two (?gE One (?gS i))"
          by blast
        from x3 [of i] i(2) j(2) have "item_id i = item_id r" by simp
        moreover from r have "item_id r \<noteq> ?k" by (rule kr)
        ultimately have "j = i" "item_id i \<in> item_id ` set rest"
          using x3 [of i] i(2) r by auto
        with idl [OF i(1)] show "status (partOf n j) = Idle" by simp
      qed
      show "\<forall>r\<in>set rest. \<forall>n. (item_id r, n) \<notin> set (expandKeys (pending ?s3))"
        unfolding eff using nk kr by auto
      show "?R Idle Splitting" by simp
      show "isProcessing ?s3" unfolding eff by (rule proc)
    qed
    then obtain seg where seg: "invariant (startProcessing_loop rest dir cfg ?s3)"
      "history (startProcessing_loop rest dir cfg ?s3) = seg @ history ?s3"
      "steps_ok ?R (seg @ [?x3])"
      unfolding eff(1) by blast
    have "steps_ok ?R (?x3 # [?x2, ?x1, ?xs])" using tr1 tr2 tr3 by simp
    from steps_ok_append [OF seg(3) this]
    have steps: "steps_ok ?R ((seg @ [?x3, ?x2, ?x1]) @ [?xs])" by simp
    have hist: "history (startProcessing_loop rest dir cfg ?s3) = (seg @ [?x3, ?x2, ?x1]) @ history s"
      unfolding seg(2) eff(3) by (simp only: append_assoc)
    show ?thesis
      unfolding f
      by (intro conjI exI [of _ "seg @ [?x3, ?x2, ?x1]"]) (rule seg(1), rule hist, rule steps)
  qed
qed


lemma fire_step:
  assumes "invariant s" "enabled e s"
  shows "invariant (fire e s)
     \<and> (\<exists>seg. history (fire e s) = seg @ history s \<and> steps_ok (edges e) (seg @ [items s]))"
proof (cases e)
  case (Upload rd uuid files)
  with assms show ?thesis using Upload_step by blast
next
  case Start
  with assms show ?thesis using Start_step by blast
next
  case (SplitSettled item rest dir cfg split)
  with assms show ?thesis using SplitSettled_step by blast
next
  case (ExpandSettled k n c settled)
  with assms show ?thesis using ExpandSettled_step by blast
next
  case (Retry k n)
  with assms show ?thesis using Retry_step by blast
next
  case (Remove k)
  with assms show ?thesis using Remove_step by blast
next
  case (Clear b)
  with assms show ?thesis using Clear_step by blast
next
  case (Save cfg)
  with assms show ?thesis using Save_step by blast
next
  case (Direction d)
  with assms show ?thesis using Direction_step by blast
next
  case (ShowSettings b)
  with assms show ?thesis using ShowSettings_step by blast
qed

lemma invariant_init: "invariant (initApp store)"
  by (simp add: invariant_def initApp_def tasks_ok_def)

lemma reachable_invariant:
  "reachable s \<Longrightarrow> invariant s \<and> steps_ok allowed (history s) \<and> last (history s) = []"
proof (induction rule: reachable.induct)
  case (init store)
  show ?case using invariant_init [of store] by (simp add: initApp_def)
next
  case (step s e)
  then have inv: "invariant s" and ok: "steps_ok allowed (history s)"
    and l: "last (history s) = []"
    by simp_all
  from fire_step [OF inv step.hyps(2)] obtain seg where
    seg: "invariant (fire e s)" "history (fire e s) = seg @ history s"
      "steps_ok (edges e) (seg @ [items s])"
    by blast
  from inv obtain h where h: "history s = items s # h"
    by (cases "history s") (auto simp: invariant_def)
  from seg(3) have "steps_ok allowed (seg @ [items s])"
    by (rule steps_ok_mono) (rule edges_allowed)
  from steps_ok_append [OF this] ok h have "steps_ok allowed (seg @ history s)" by simp
  moreover from l h have "last (seg @ history s) = []" by simp
  ultimately show ?case using seg(1,2) by simp
qed

lemma reachable_run: "reachable s \<Longrightarrow> feasible es s \<Longrightarrow> reachable (run es s)"
  by (induction es arbitrary: s) (auto intro: reachable.step)

text \<open>
  C2, as the code has it. In every state that the component can reach: the items started
  empty, so every half entered the list idle (\<open>ok_trans\<close> asks that of an item whose
  identifier is new), and each update of the items has left the status of a half as it
  was or has changed it along \<open>allowed\<close>: idle to splitting, splitting back to idle,
  idle to expanding, expanding to done or to error, error to expanding. Event by event:
  the batch start takes halves from idle to splitting; a settled split takes them from
  splitting to idle and from there to expanding, and the next item from idle to
  splitting; a settled expansion takes a half from expanding to done or to error; a retry
  takes a half from error to expanding; no other event changes a status. So a half is
  done only from expanding, a half that is done stays so, and a half in error leaves it
  only for expanding, by a retry.
\<close>

theorem status_transitions:
  assumes "reachable s"
  shows "steps_ok allowed (history s) \<and> last (history s) = [] \<and> hd (history s) = items s
     \<and> (\<forall>e. enabled e s \<longrightarrow>
           (\<exists>seg. history (fire e s) = seg @ history s \<and> steps_ok (edges e) (seg @ [items s])))
     \<and> (\<forall>a. allowed a Done \<longrightarrow> a = Expanding)
     \<and> (\<forall>b. \<not> allowed Done b)
     \<and> (\<forall>b. allowed Error b \<longrightarrow> b = Expanding)"
proof -
  from reachable_invariant [OF assms] have inv: "invariant s"
    and ok: "steps_ok allowed (history s)" "last (history s) = []"
    by simp_all
  from inv have "hd (history s) = items s" by (simp add: invariant_def)
  moreover have "\<exists>seg. history (fire e s) = seg @ history s \<and> steps_ok (edges e) (seg @ [items s])"
    if "enabled e s" for e
    using fire_step [OF inv that] by blast
  ultimately show ?thesis using ok by (auto simp: allowed_def)
qed

lemma demo_feasible: "feasible demoSession (initApp (\<lambda>k. None))"
  by (simp add: demoSession_def initApp_def truthy_def orElse_def saveSettings_def
      handleFilesAdded_def usedIds_def startProcessing_def Let_def demoSettings_def
      demoItem_def demoPart_def demoFile_def markSplitting_def startProcessing_resume_def
      markSplit_def markExpanding_def processImagePart_resume_def markError_def markDone_def
      withPart_def partOf_def setItems_def processImagePart_def expandImageWithGemini_request_def
      expandImageWithGemini_response_def firstCandidateParts_def demoResponse_def
      demoCandidate_def demoImagePart_def DEFAULT_MODEL_def cleanBase64_def retryPart_def)

lemma demo_history:
  "map (map (\<lambda>i. (status (splitPart1 i), status (splitPart2 i))))
     (history (run demoSession (initApp (\<lambda>k. None))))
   = [[(Expanding, Done)], [(Error, Done)], [(Error, Expanding)], [(Expanding, Expanding)],
      [(Expanding, Idle)], [(Idle, Idle)], [(Splitting, Splitting)], [(Idle, Idle)], []]"
  by (simp add: demoSession_def initApp_def truthy_def orElse_def saveSettings_def
      handleFilesAdded_def usedIds_def startProcessing_def Let_def demoSettings_def
      demoItem_def demoPart_def demoFile_def markSplitting_def startProcessing_resume_def
      markSplit_def markExpanding_def processImagePart_resume_def markError_def markDone_def
      withPart_def partOf_def setItems_def processImagePart_def expandImageWithGemini_request_def
      expandImageWithGemini_response_def firstCandidateParts_def demoResponse_def
      demoCandidate_def demoImagePart_def DEFAULT_MODEL_def cleanBase64_def retryPart_def)

lemma demo_not_forward:
  "\<not> steps_ok specOrder (history (run demoSession (initApp (\<lambda>k. None))))"
  by (simp add: demoSession_def initApp_def truthy_def orElse_def saveSettings_def
      handleFilesAdded_def usedIds_def startProcessing_def Let_def demoSettings_def
      demoItem_def demoPart_def demoFile_def markSplitting_def startProcessing_resume_def
      markSplit_def markExpanding_def processImagePart_resume_def markError_def markDone_def
      withPart_def partOf_def setItems_def processImagePart_def expandImageWithGemini_request_def
      expandImageWithGemini_response_def firstCandidateParts_def demoResponse_def
      demoCandidate_def demoImagePart_def DEFAULT_MODEL_def cleanBase64_def retryPart_def
      ok_trans_def specOrder_def all_partNumber)
lemma demo_enabled:
  "enabled (ExpandSettled ''u'' One (expandImageWithGemini_request ''data:,L'' (demoSettings ''key''))
      (Inr (demoResponse [[demoImagePart ''REVG'']])))
     (run demoSession (initApp (\<lambda>k. None)))"
  by (simp add: demoSession_def initApp_def truthy_def orElse_def saveSettings_def
      handleFilesAdded_def usedIds_def startProcessing_def Let_def demoSettings_def
      demoItem_def demoPart_def demoFile_def markSplitting_def startProcessing_resume_def
      markSplit_def markExpanding_def processImagePart_resume_def markError_def markDone_def
      withPart_def partOf_def setItems_def processImagePart_def expandImageWithGemini_request_def
      expandImageWithGemini_response_def firstCandidateParts_def demoResponse_def
      demoCandidate_def demoImagePart_def DEFAULT_MODEL_def cleanBase64_def retryPart_def)

text \<open>
  The theorem on the sample session: the state it leads to can be reached, its history
  follows \<open>allowed\<close>, and the retried expansion can settle there.
\<close>

theorem status_transitions_witness:
  "reachable (run demoSession (initApp (\<lambda>k. None)))
   \<and> steps_ok allowed (history (run demoSession (initApp (\<lambda>k. None))))
   \<and> last (history (run demoSession (initApp (\<lambda>k. None)))) = []
   \<and> enabled (ExpandSettled ''u'' One (expandImageWithGemini_request ''data:,L'' (demoSettings ''key''))
        (Inr (demoResponse [[demoImagePart ''REVG'']])))
       (run demoSession (initApp (\<lambda>k. None)))
   \<and> (\<exists>seg. history (fire (ExpandSettled ''u'' One
          (expandImageWithGemini_request ''data:,L'' (demoSettings ''key''))
          (Inr (demoResponse [[demoImagePart ''REVG'']]))) (run demoSession (initApp (\<lambda>k. None))))
        = seg @ history (run demoSession (initApp (\<lambda>k. None)))
      \<and> steps_ok (edges (ExpandSettled ''u'' One
          (expandImageWithGemini_request ''data:,L'' (demoSettings ''key''))
          (Inr (demoResponse [[demoImagePart ''REVG'']]))))
          (seg @ [items (run demoSession (initApp (\<lambda>k. None)))]))"
proof -
  have r: "reachable (run demoSession (initApp (\<lambda>k. None)))"
    by (rule reachable_run [OF reachable.init demo_feasible])
  from status_transitions [OF r] demo_enabled r show ?thesis by blast
qed

text \<open>
  C2 as the specification words it lets a status go back only from error to expanding.
  In the sample session the statuses of the two halves of the item, from the latest value
  of the items back to the first, go from splitting back to idle when the split has
  succeeded: the history of the session does not follow the order of the specification.
\<close>

theorem status_backward_counterexample:
  "reachable (run demoSession (initApp (\<lambda>k. None)))
   \<and> map (map (\<lambda>i. (status (splitPart1 i), status (splitPart2 i))))
       (history (run demoSession (initApp (\<lambda>k. None))))
     = [[(Expanding, Done)], [(Error, Done)], [(Error, Expanding)], [(Expanding, Expanding)],
        [(Expanding, Idle)], [(Idle, Idle)], [(Splitting, Splitting)], [(Idle, Idle)], []]
   \<and> \<not> steps_ok specOrder (history (run demoSession (initApp (\<lambda>k. None))))"
  using reachable_run [OF reachable.init demo_feasible] demo_history demo_not_forward
  by blast

subsection \<open>A retry without a credential\<close>




end
